theory Spec2Isabelle
  imports Main "HOL-Library.AList" "HOL-Library.Char_ord" "HOL-Library.List_Lexorder"
begin

section \<open>The AUR metadata client of bauh (bauh/gems/arch/aur.py)\<close>

text \<open>
  A shallow embedding of \<^verbatim>\<open>aur.py\<close>: the \<^verbatim>\<open>.SRCINFO\<close> tokenizer
  (\<^verbatim>\<open>RE_SRCINFO_KEYS.findall\<close>), the block loop and the merge of \<^verbatim>\<open>map_srcinfo\<close> and
  \<^verbatim>\<open>merge_subinfos\<close>, and the stateful \<^verbatim>\<open>AURClient\<close> with its cache and its transport.

  Conventions of the model:
  \<^item> a \<^typ>\<open>char\<close> is one character of a Python \<^verbatim>\<open>str\<close>, the code point with its
    number: the type has the 256 code points below \<^verbatim>\<open>U+0100\<close>, and the classes \<^verbatim>\<open>\w\<close> and
    \<^verbatim>\<open>\s\<close> are what Python's \<^verbatim>\<open>re\<close> matches on \<^verbatim>\<open>str\<close> for each of them;
  \<^item> a Python \<^verbatim>\<open>dict\<close> is an association list in insertion order with distinct keys
    (\<^const>\<open>AList.update\<close> overwrites in place and appends a new key, as Python does);
  \<^item> a Python \<^verbatim>\<open>set\<close> of strings is a \<^typ>\<open>string set\<close>; the order in which Python
    iterates a set is not fixed by the language, so the function that lists a set
    (\<^verbatim>\<open>[*val]\<close>) is a parameter \<open>enum\<close> of the model;
  \<^item> Python truthiness is written out: \<^verbatim>\<open>if d\<close> on a dict is \<open>d \<noteq> []\<close>, on an optional
    string it is \<open>truthy\<close>.
\<close>

subsection \<open>Python values\<close>

text \<open>What the transport may raise: \<^verbatim>\<open>requests.exceptions.ConnectionError\<close>, or anything else.\<close>

datatype transport_error = ConnectionError | OtherError

datatype error =
    Transport transport_error
  | TypeError
  | PackageNotFoundException string

text \<open>A value in a sub-package block: a \<^verbatim>\<open>str\<close> or a \<^verbatim>\<open>set\<close> of \<^verbatim>\<open>str\<close>.\<close>

datatype subval = Str string | StrSet "string set"

text \<open>A value in the merged record: a \<^verbatim>\<open>str\<close> or a \<^verbatim>\<open>list\<close> of \<^verbatim>\<open>str\<close>.\<close>

datatype val = Single string | Multi "string list"

type_synonym subinfo = "(string \<times> subval) list"
type_synonym srcinfo = "(string \<times> val) list"

text \<open>\<^verbatim>\<open>bool(x)\<close> for an optional string: \<^verbatim>\<open>None\<close> and \<^verbatim>\<open>''\<close> are false.\<close>

fun truthy :: "string option \<Rightarrow> bool" where
  "truthy None = False"
| "truthy (Some s) = (s \<noteq> [])"

subsection \<open>The tokenizer: \<^verbatim>\<open>RE_SRCINFO_KEYS.findall\<close>\<close>

text \<open>
  \<^verbatim>\<open>RE_SRCINFO_KEYS = re.compile(r'(\w+)\s+=\s+(.+)\n')\<close>, a pattern on \<^verbatim>\<open>str\<close>, so that
  its classes are the Unicode ones. Below \<^verbatim>\<open>U+0100\<close>, \<^verbatim>\<open>\w\<close> is the underscore and what
  \<^verbatim>\<open>str.isalnum\<close> accepts: the ASCII letters and digits, and of Latin-1 the ordinal
  indicators, the superscript digits, the micro sign, the fractions and the letters;
  \<^verbatim>\<open>\s\<close> is what \<^verbatim>\<open>str.isspace\<close> accepts: the characters 9 to 13, 28 to 32, \<^verbatim>\<open>U+0085\<close>
  and \<^verbatim>\<open>U+00A0\<close>. The dot is every character but the newline.
\<close>

definition in_range :: "nat \<Rightarrow> nat \<Rightarrow> char \<Rightarrow> bool" where
  "in_range lo hi c \<longleftrightarrow> lo \<le> of_char c \<and> of_char c \<le> hi"

definition is_word :: "char \<Rightarrow> bool" where
  "is_word c \<longleftrightarrow>
     in_range 0x30 0x39 c \<or> in_range 0x41 0x5A c \<or> c = CHR ''_'' \<or> in_range 0x61 0x7A c \<or>
     c = CHR 0xAA \<or> in_range 0xB2 0xB3 c \<or> c = CHR 0xB5 \<or> in_range 0xB9 0xBA c \<or>
     in_range 0xBC 0xBE c \<or> in_range 0xC0 0xD6 c \<or> in_range 0xD8 0xF6 c \<or>
     in_range 0xF8 0xFF c"

definition is_space :: "char \<Rightarrow> bool" where
  "is_space c \<longleftrightarrow>
     c \<in> set [CHR 0x09, CHR 0x0A, CHR 0x0B, CHR 0x0C, CHR 0x0D,
               CHR 0x1C, CHR 0x1D, CHR 0x1E, CHR 0x1F, CHR 0x20, CHR 0x85, CHR 0xA0]"

definition not_newline :: "char \<Rightarrow> bool" where
  "not_newline c \<longleftrightarrow> c \<noteq> CHR 0x0A"

text \<open>
  The tail \<^verbatim>\<open>\s+(.+)\n\<close> of the pattern on the text after the \<^verbatim>\<open>=\<close>. The greedy \<^verbatim>\<open>\s+\<close>
  first takes the whole run of white space and gives characters back one at a time, down
  to one; \<^verbatim>\<open>.+\<close> takes the whole run up to the next newline, which must be non-empty and
  must be followed by a newline (giving a character back would leave a non-newline where
  \<^verbatim>\<open>\n\<close> is required). The first parameter is the number of white-space characters
  that \<^verbatim>\<open>\s+\<close> currently holds. The result is group 2 and the text after the match.
\<close>

fun match_value :: "nat \<Rightarrow> string \<Rightarrow> (string \<times> string) option" where
  "match_value 0 rest = None"
| "match_value (Suc k) rest =
     (let r = drop (Suc k) rest;
          v = takeWhile not_newline r
      in case dropWhile not_newline r of
           [] \<Rightarrow> match_value k rest
         | nl # after \<Rightarrow> if v \<noteq> [] then Some (v, after) else match_value k rest)"

text \<open>
  One attempt to match the pattern at the start of the text. \<^verbatim>\<open>\w+\<close> and the first
  \<^verbatim>\<open>\s+\<close> can only succeed with their longest run: a shorter one is followed by a
  character of the same class, where the pattern wants \<^verbatim>\<open>\s\<close> and \<^verbatim>\<open>=\<close>.
\<close>

definition match_at :: "string \<Rightarrow> ((string \<times> string) \<times> string) option" where
  "match_at t =
     (let w = takeWhile is_word t;
          r1 = dropWhile is_word t;
          s1 = takeWhile is_space r1;
          r2 = dropWhile is_space r1
      in if w = [] \<or> s1 = [] then None
         else case r2 of
                [] \<Rightarrow> None
              | c # r3 \<Rightarrow>
                  if c \<noteq> CHR ''='' then None
                  else case match_value (length (takeWhile is_space r3)) r3 of
                         None \<Rightarrow> None
                       | Some (v, after) \<Rightarrow> Some ((w, v), after))"

lemma match_value_shorter:
  "match_value k rest = Some (v, after) \<Longrightarrow> length after < length rest"
proof (induction k)
  case 0
  then show ?case by simp
next
  case (Suc k)
  show ?case
  proof (cases "dropWhile not_newline (drop (Suc k) rest)")
    case Nil
    with Suc show ?thesis by simp
  next
    case (Cons nl aft)
    have "length (dropWhile not_newline (drop (Suc k) rest)) \<le> length (drop (Suc k) rest)"
      by (rule length_dropWhile_le)
    with Cons have "length aft < length rest" by simp
    with Suc Cons show ?thesis by (auto simp: Let_def split: if_splits)
  qed
qed

lemma match_at_shorter:
  assumes "match_at t = Some (g, after)"
  shows "length after < length t"
proof -
  from assms obtain c r3 v where
    r2: "dropWhile is_space (dropWhile is_word t) = c # r3" and
    mv: "match_value (length (takeWhile is_space r3)) r3 = Some (v, after)"
    by (auto simp: match_at_def Let_def split: if_splits list.splits option.splits)
  have "length after < length r3" using mv by (rule match_value_shorter)
  moreover have "length (c # r3) \<le> length t"
    unfolding r2 [symmetric]
    by (meson length_dropWhile_le order_trans)
  ultimately show ?thesis by simp
qed

text \<open>
  \<^verbatim>\<open>findall\<close>: scan from the left; at a match emit the two groups and go on after the
  match, otherwise move one character to the right.
\<close>

function findall :: "string \<Rightarrow> (string \<times> string) list" where
  "findall [] = []"
| "findall (c # cs) =
     (case match_at (c # cs) of
        Some (g, after) \<Rightarrow> g # findall after
      | None \<Rightarrow> findall cs)"
  by pat_completeness auto
termination
proof (relation "measure length")
  show "wf (measure length)" by simp
next
  fix c cs x2 x y
  assume "match_at (c # cs) = Some x2" and "(x, y) = x2"
  then have "match_at (c # cs) = Some (x, y)" by simp
  then have "length y < length (c # cs)" by (rule match_at_shorter)
  then show "(y, c # cs) \<in> measure length" by simp
next
  fix c :: char and cs :: string
  show "(cs, c # cs) \<in> measure length" by simp
qed

text \<open>
  \<^verbatim>\<open>str.strip()\<close>: drop the white space at both ends, which is what \<^verbatim>\<open>str.isspace\<close>
  accepts, the class \<^verbatim>\<open>\s\<close> again.
\<close>

definition strip :: "string \<Rightarrow> string" where
  "strip s = rev (dropWhile is_space (rev (dropWhile is_space s)))"

subsection \<open>The block loop of \<^verbatim>\<open>map_srcinfo\<close>\<close>

definition KNOWN_LIST_FIELDS :: "string list" where
  "KNOWN_LIST_FIELDS =
     [''validpgpkeys'',
      ''checkdepends'', ''checkdepends_x86_64'', ''checkdepends_i686'',
      ''depends'', ''depends_x86_64'', ''depends_i686'',
      ''optdepends'', ''optdepends_x86_64'', ''optdepends_i686'',
      ''sha256sums'', ''sha256sums_x86_64'',
      ''sha512sums'', ''sha512sums_x86_64'',
      ''source'', ''source_x86_64'', ''source_i686'',
      ''makedepends'', ''makedepends_x86_64'', ''makedepends_i686'',
      ''provides'', ''conflicts'']"

definition key_fields :: "string set" where
  "key_fields = {''pkgname'', ''pkgbase''}"

text \<open>\<^verbatim>\<open>not fields or key in fields\<close>: no filter, or an empty one, lets every key through.\<close>

definition fields_allow :: "string set option \<Rightarrow> string \<Rightarrow> bool" where
  "fields_allow fields key =
     (case fields of None \<Rightarrow> True | Some F \<Rightarrow> F = {} \<or> key \<in> F)"

text \<open>
  Lines 62 to 68: the first value of a key is stored as it is, or as a one-element set
  for a key of \<^const>\<open>KNOWN_LIST_FIELDS\<close>; a later value turns a string into a set and is
  added to the set.
\<close>

definition add_value :: "subinfo \<Rightarrow> string \<Rightarrow> string \<Rightarrow> subinfo" where
  "add_value subinfo key v =
     (case map_of subinfo key of
        None \<Rightarrow>
          AList.update key (if key \<in> set KNOWN_LIST_FIELDS then StrSet {v} else Str v) subinfo
      | Some (Str v0) \<Rightarrow> AList.update key (StrSet (insert v {v0})) subinfo
      | Some (StrSet S) \<Rightarrow> AList.update key (StrSet (insert v S)) subinfo)"

text \<open>
  The body of the loop over the matches (lines 55 to 68), on the pair of the closed
  blocks \<^verbatim>\<open>subinfos\<close> and the current block \<^verbatim>\<open>subinfo\<close>.
\<close>

definition srcinfo_step ::
  "string set option \<Rightarrow> subinfo list \<times> subinfo \<Rightarrow> string \<times> string \<Rightarrow> subinfo list \<times> subinfo"
where
  "srcinfo_step fields st field =
     (let subinfos = fst st; subinfo = snd st;
          key = strip (fst field);
          v = strip (snd field)
      in if subinfo \<noteq> [] \<and> key \<in> key_fields then (subinfos @ [subinfo], [(key, Str v)])
         else if fields_allow fields key then (subinfos, add_value subinfo key v)
         else (subinfos, subinfo))"

text \<open>Lines 50 to 71: the loop, and the last block closed if it is not empty.\<close>

definition srcinfo_blocks :: "string set option \<Rightarrow> (string \<times> string) list \<Rightarrow> subinfo list" where
  "srcinfo_blocks fields matches =
     (let st = foldl (srcinfo_step fields) ([], []) matches
      in if snd st \<noteq> [] then fst st @ [snd st] else fst st)"

subsection \<open>\<^verbatim>\<open>merge_subinfos\<close>\<close>

text \<open>
  Line 82, \<^verbatim>\<open>not pkgname or subinfo.get('pkgname') in {None, pkgname}\<close>. A set is not equal
  to \<^verbatim>\<open>None\<close> or to a string, so a block whose \<^verbatim>\<open>pkgname\<close> is a set is not selected.
\<close>

definition selected :: "string option \<Rightarrow> subinfo \<Rightarrow> bool" where
  "selected pkgname subinfo \<longleftrightarrow>
     \<not> truthy pkgname \<or>
     (case map_of subinfo ''pkgname'' of
        None \<Rightarrow> True
      | Some (Str n) \<Rightarrow> Some n = pkgname
      | Some (StrSet S) \<Rightarrow> False)"

fun as_set :: "subval \<Rightarrow> string set" where
  "as_set (Str v) = {v}"
| "as_set (StrSet S) = S"

text \<open>
  Lines 85 to 97: a key seen for the first time takes the block's value; otherwise the
  current value is turned into a set if it is a string, and the block's value is added
  to it (\<^verbatim>\<open>update\<close> for a set, \<^verbatim>\<open>add\<close> for a string). The Python stores the block's set
  object itself and later adds to it in place; the blocks are read once and in order,
  so the record does not depend on this sharing, and the model works on values.
\<close>

definition merge_value :: "subinfo \<Rightarrow> string \<Rightarrow> subval \<Rightarrow> subinfo" where
  "merge_value info key v =
     (case map_of info key of
        None \<Rightarrow> AList.update key v info
      | Some current_val \<Rightarrow> AList.update key (StrSet (as_set current_val \<union> as_set v)) info)"

definition merge_subinfo :: "string set option \<Rightarrow> subinfo \<Rightarrow> subinfo \<Rightarrow> subinfo" where
  "merge_subinfo fields info subinfo =
     foldl (\<lambda>info kv. if fields_allow fields (fst kv) then merge_value info (fst kv) (snd kv)
                       else info)
           info subinfo"

definition merge_loop :: "subinfo list \<Rightarrow> string option \<Rightarrow> string set option \<Rightarrow> subinfo" where
  "merge_loop subinfos pkgname fields =
     foldl (\<lambda>info subinfo. if selected pkgname subinfo then merge_subinfo fields info subinfo
                            else info)
           [] subinfos"

text \<open>Lines 99 to 103: every set becomes a list, in the order \<open>enum\<close> lists it.\<close>

fun to_val :: "(string set \<Rightarrow> string list) \<Rightarrow> subval \<Rightarrow> val" where
  "to_val enum (Str v) = Single v"
| "to_val enum (StrSet S) = Multi (enum S)"

definition merge_subinfos ::
  "(string set \<Rightarrow> string list) \<Rightarrow> subinfo list \<Rightarrow> string option \<Rightarrow> string set option \<Rightarrow> srcinfo"
where
  "merge_subinfos enum subinfos pkgname fields =
     map (\<lambda>kv. (fst kv, to_val enum (snd kv))) (merge_loop subinfos pkgname fields)"

subsection \<open>\<^verbatim>\<open>map_srcinfo\<close>\<close>

text \<open>
  Line 73, \<^verbatim>\<open>{s['pkgname'] for s in subinfos if 'pkgname' in s}\<close>: a set cannot be a member
  of a set, so a block whose \<^verbatim>\<open>pkgname\<close> is a set raises \<^verbatim>\<open>TypeError\<close>.
\<close>

fun pkgnames :: "subinfo list \<Rightarrow> error + string set" where
  "pkgnames [] = Inr {}"
| "pkgnames (s # subinfos) =
     (case map_of s ''pkgname'' of
        None \<Rightarrow> pkgnames subinfos
      | Some (StrSet S) \<Rightarrow> Inl TypeError
      | Some (Str n) \<Rightarrow>
          (case pkgnames subinfos of Inl e \<Rightarrow> Inl e | Inr names \<Rightarrow> Inr (insert n names)))"

text \<open>Line 75: the name that \<^verbatim>\<open>map_srcinfo\<close> passes on to \<^verbatim>\<open>merge_subinfos\<close>.\<close>

definition merge_pkgname :: "string set \<Rightarrow> string option \<Rightarrow> string option" where
  "merge_pkgname names pkgname =
     (if \<not> truthy pkgname \<or> card names = 1 \<or> the pkgname \<notin> names then None else pkgname)"

text \<open>Lines 73 to 76: the merge of a block list as \<^verbatim>\<open>map_srcinfo\<close> performs it.\<close>

definition merge_blocks ::
  "(string set \<Rightarrow> string list) \<Rightarrow> subinfo list \<Rightarrow> string option \<Rightarrow> string set option
     \<Rightarrow> error + srcinfo"
where
  "merge_blocks enum subinfos pkgname fields =
     (case pkgnames subinfos of
        Inl e \<Rightarrow> Inl e
      | Inr names \<Rightarrow> Inr (merge_subinfos enum subinfos (merge_pkgname names pkgname) fields))"

definition map_srcinfo ::
  "(string set \<Rightarrow> string list) \<Rightarrow> string \<Rightarrow> string option \<Rightarrow> string set option \<Rightarrow> error + srcinfo"
where
  "map_srcinfo enum string pkgname fields =
     merge_blocks enum (srcinfo_blocks fields (findall string)) pkgname fields"

subsection \<open>\<^verbatim>\<open>AURClient\<close>: the transport, the cache and the lookup\<close>

text \<open>
  The transport (\<^verbatim>\<open>bauh.api.http.HttpClient\<close>) is outside this module. A request is named
  by the URL constant it is built from and the names put into it
  (\<^verbatim>\<open>urllib.parse.quote\<close> is a function of the name).
\<close>

datatype url =
    URL_SRC_INFO string
  | URL_INFO "string list"
  | URL_INDEX

text \<open>
  \<^verbatim>\<open>http_client.get\<close> raises, returns \<^verbatim>\<open>None\<close>, or returns a response, which has a truth
  value (\<^verbatim>\<open>Response.ok\<close>) and a \<^verbatim>\<open>text\<close>.
\<close>

datatype response = Raises transport_error | NoResponse | Response bool string

text \<open>An entry of the info endpoint, read with \<^verbatim>\<open>info.get('Name')\<close> and \<^verbatim>\<open>info.get('PackageBase')\<close>.\<close>

record info =
  Name :: "string option"
  PackageBase :: "string option"

text \<open>
  \<^verbatim>\<open>http_client.get_json\<close> raises, returns \<^verbatim>\<open>None\<close>, or returns an object whose
  \<^verbatim>\<open>'results'\<close> may be missing.
\<close>

datatype json_response = JsonRaises transport_error | JsonNone | JsonObject "info list option"

text \<open>
  The fields of the client that never change, and the order in which the Python runtime
  lists a set. The transport answers a request given the requests sent before it, so
  that the remote side may answer the same request differently over time.
\<close>

record client =
  http_get :: "url list \<Rightarrow> url \<Rightarrow> response"
  http_get_json :: "url list \<Rightarrow> url \<Rightarrow> json_response"
  x86_64 :: bool
  set_order :: "string set \<Rightarrow> string list"

text \<open>The mutable state: the cache of the client and the requests the transport has received.\<close>

record state =
  srcinfo_cache :: "string \<rightharpoonup> srcinfo"
  sent :: "url list"

definition init :: state where
  "init = \<lparr>srcinfo_cache = Map.empty, sent = []\<rparr>"

text \<open>\<^verbatim>\<open>if srcinfo\<close> on the result of a lookup: \<^verbatim>\<open>None\<close> and the empty dict are false.\<close>

fun nonempty :: "srcinfo option \<Rightarrow> bool" where
  "nonempty None = False"
| "nonempty (Some r) = (r \<noteq> [])"

text \<open>Lines 119 to 124: every exception of the request is caught and gives the empty list.\<close>

definition get_info :: "client \<Rightarrow> string list \<Rightarrow> state \<Rightarrow> info list \<times> state" where
  "get_info c names s =
     (case http_get_json c (sent s) (URL_INFO names) of
        JsonObject (Some results) \<Rightarrow> results
      | _ \<Rightarrow> [],
      s\<lparr>sent := sent s @ [URL_INFO names]\<rparr>)"

text \<open>
  \<^verbatim>\<open>get_src_info\<close>, lines 126 to 159, calls itself on the base name. What a call does
  before that point either ends the call (\<open>Return\<close>, with the exception raised or the
  value returned, and the state left) or reaches the recursive call (\<open>Recurse\<close>, with its
  two arguments and the state at that point).
\<close>

datatype lookup =
    Return "(error + srcinfo option) \<times> state"
  | Recurse string "string option" state

text \<open>Lines 137 and 138, and again 156 and 157: \<^verbatim>\<open>if srcinfo: self.srcinfo_cache[name] = srcinfo\<close>.\<close>

definition cache_store :: "string \<Rightarrow> srcinfo option \<Rightarrow> state \<Rightarrow> state" where
  "cache_store name srcinfo s =
     (if nonempty srcinfo then s\<lparr>srcinfo_cache := (srcinfo_cache s)(name \<mapsto> the srcinfo)\<rparr>
      else s)"

text \<open>Lines 135 to 140: the document has a text.\<close>

definition lookup_parsed :: "client \<Rightarrow> string \<Rightarrow> string option \<Rightarrow> string \<Rightarrow> state \<Rightarrow> lookup" where
  "lookup_parsed c name real_name text s1 =
     (case map_srcinfo (set_order c) text (if truthy real_name then real_name else Some name)
             None of
        Inl e \<Rightarrow> Return (Inl e, s1)
      | Inr srcinfo \<Rightarrow> Return (Inr (Some srcinfo), cache_store name (Some srcinfo) s1))"

text \<open>
  Lines 142 to 154: no text; the info endpoint is asked for the name. The function ends
  with \<^verbatim>\<open>None\<close> when there is no entry, or when the first entry has no other base.
\<close>

definition lookup_fallback :: "client \<Rightarrow> string \<Rightarrow> state \<Rightarrow> lookup" where
  "lookup_fallback c name s1 =
     (case get_info c [name] s1 of
        ([], s2) \<Rightarrow> Return (Inr None, s2)
      | (info # _, s2) \<Rightarrow>
          if truthy (Name info) \<and> truthy (PackageBase info) \<and> Name info \<noteq> PackageBase info
          then Recurse (the (PackageBase info)) (Name info) s2
          else Return (Inr None, s2))"

text \<open>
  Lines 127 to 154. The request for the document is not inside a \<^verbatim>\<open>try\<close>: what the
  transport raises leaves the function. \<^verbatim>\<open>res and res.text\<close> needs a response that is true
  and whose text is not empty.
\<close>

definition lookup_start :: "client \<Rightarrow> string \<Rightarrow> string option \<Rightarrow> state \<Rightarrow> lookup" where
  "lookup_start c name real_name s =
     (if nonempty (srcinfo_cache s name) then Return (Inr (srcinfo_cache s name), s)
      else
        let s1 = s\<lparr>sent := sent s @ [URL_SRC_INFO name]\<rparr> in
        case http_get c (sent s) (URL_SRC_INFO name) of
          Raises e \<Rightarrow> Return (Inl (Transport e), s1)
        | NoResponse \<Rightarrow> lookup_fallback c name s1
        | Response ok text \<Rightarrow>
            if ok \<and> text \<noteq> [] then lookup_parsed c name real_name text s1
            else lookup_fallback c name s1)"

text \<open>
  Nothing bounds the depth of the recursion, so the model takes fuel: one unit for each
  call, and \<open>None\<close> when the fuel does not suffice. After the recursive call, lines 156 to
  159 store its result under the name of this call and return it.
\<close>

fun get_src_info ::
  "nat \<Rightarrow> client \<Rightarrow> string \<Rightarrow> string option \<Rightarrow> state
     \<Rightarrow> ((error + srcinfo option) \<times> state) option"
where
  "get_src_info 0 c name real_name s = None"
| "get_src_info (Suc fuel) c name real_name s =
     (case lookup_start c name real_name s of
        Return r \<Rightarrow> Some r
      | Recurse info_base info_name s2 \<Rightarrow>
          (case get_src_info fuel c info_base info_name s2 of
             None \<Rightarrow> None
           | Some (Inl e, s3) \<Rightarrow> Some (Inl e, s3)
           | Some (Inr srcinfo, s3) \<Rightarrow> Some (Inr srcinfo, cache_store name srcinfo s3)))"

text \<open>Lines 233 and 234.\<close>

definition clean_caches :: "state \<Rightarrow> state" where
  "clean_caches s = s\<lparr>srcinfo_cache := Map.empty\<rparr>"

subsection \<open>Dependencies\<close>

text \<open>
  Lines 161 to 174. \<^verbatim>\<open>deps.update(x)\<close> adds the items of \<^verbatim>\<open>x\<close>: the elements of a list, and
  the characters of a string.
\<close>

definition dependency_attrs :: "bool \<Rightarrow> string list" where
  "dependency_attrs x86 =
     (let arch = (if x86 then ''x86_64'' else ''i686'')
      in [''makedepends'', ''makedepends_'' @ arch,
          ''depends'', ''depends_'' @ arch,
          ''checkdepends'', ''checkdepends_'' @ arch])"

fun val_truthy :: "val \<Rightarrow> bool" where
  "val_truthy (Single v) = (v \<noteq> [])"
| "val_truthy (Multi vs) = (vs \<noteq> [])"

fun items :: "val \<Rightarrow> string set" where
  "items (Single v) = (\<lambda>ch. [ch]) ` set v"
| "items (Multi vs) = set vs"

definition extract_required_dependencies :: "bool \<Rightarrow> srcinfo \<Rightarrow> string set" where
  "extract_required_dependencies x86 srcinfo =
     foldl (\<lambda>deps attr.
              case map_of srcinfo attr of
                None \<Rightarrow> deps
              | Some v \<Rightarrow> if val_truthy v then deps \<union> items v else deps)
           {} (dependency_attrs x86)"

text \<open>Lines 176 to 182.\<close>

definition get_required_dependencies ::
  "nat \<Rightarrow> client \<Rightarrow> string \<Rightarrow> state \<Rightarrow> ((error + string set) \<times> state) option"
where
  "get_required_dependencies fuel c name s =
     (case get_src_info fuel c name None s of
        None \<Rightarrow> None
      | Some (Inl e, s') \<Rightarrow> Some (Inl e, s')
      | Some (Inr info, s') \<Rightarrow>
          if \<not> nonempty info then Some (Inl (PackageNotFoundException name), s')
          else Some (Inr (extract_required_dependencies (x86_64 c) (the info)), s'))"

text \<open>
  Lines 201 to 213. Only \<^verbatim>\<open>requests.exceptions.ConnectionError\<close> is caught; the function then
  falls through to its end and returns \<^verbatim>\<open>None\<close>.
\<close>

definition split_newline :: "string \<Rightarrow> string list" where
  "split_newline s =
     foldr (\<lambda>ch acc. if ch = CHR 0x0A then [] # acc
                      else (case acc of [] \<Rightarrow> [[ch]] | l # ls \<Rightarrow> (ch # l) # ls))
           s [[]]"

definition download_names :: "client \<Rightarrow> state \<Rightarrow> (error + string set option) \<times> state" where
  "download_names c s =
     (case http_get c (sent s) URL_INDEX of
        Raises ConnectionError \<Rightarrow> Inr None
      | Raises OtherError \<Rightarrow> Inl (Transport OtherError)
      | NoResponse \<Rightarrow> Inr None
      | Response ok doc \<Rightarrow>
          if ok \<and> doc \<noteq> []
          then Inr (Some (strip ` {n \<in> set (split_newline doc). n \<noteq> [] \<and> hd n \<noteq> CHR ''#''}))
          else Inr None,
      s\<lparr>sent := sent s @ [URL_INDEX]\<rparr>)"

subsection \<open>Callers\<close>

text \<open>
  A caller of the client: a sequence of calls on one client, each with the same fuel.
  An exception of a call is the caller's to handle; the client and its cache live on.
\<close>

datatype call =
    Get_src_info string "string option"
  | Get_required_dependencies string
  | Clean_caches

fun run :: "nat \<Rightarrow> client \<Rightarrow> call list \<Rightarrow> state \<Rightarrow> state option" where
  "run fuel c [] s = Some s"
| "run fuel c (Get_src_info name real_name # calls) s =
     (case get_src_info fuel c name real_name s of
        None \<Rightarrow> None
      | Some (out, s') \<Rightarrow> run fuel c calls s')"
| "run fuel c (Get_required_dependencies name # calls) s =
     (case get_required_dependencies fuel c name s of
        None \<Rightarrow> None
      | Some (out, s') \<Rightarrow> run fuel c calls s')"
| "run fuel c (Clean_caches # calls) s = run fuel c calls (clean_caches s)"

subsection \<open>Notions used in the statements\<close>

text \<open>Every cached record is a non-empty mapping.\<close>

definition cache_ok :: "state \<Rightarrow> bool" where
  "cache_ok s \<longleftrightarrow> (\<forall>name r. srcinfo_cache s name = Some r \<longrightarrow> r \<noteq> [])"

text \<open>A block whose \<^verbatim>\<open>pkgname\<close>, if it has one, is a string.\<close>

definition scalar_pkgname :: "subinfo \<Rightarrow> bool" where
  "scalar_pkgname b \<longleftrightarrow> (case map_of b ''pkgname'' of Some (StrSet S) \<Rightarrow> False | _ \<Rightarrow> True)"

text \<open>A pair whose key is a boundary key.\<close>

definition is_boundary :: "string \<times> string \<Rightarrow> bool" where
  "is_boundary p \<longleftrightarrow> strip (fst p) \<in> key_fields"

text \<open>
  The segmentation as the specification words it (section 4.2), on lists of pairs:
  maintain a current block; when a boundary key is seen and the current block already
  holds at least one entry, close the current block and open a new one seeded with that
  single pair; otherwise insert the pair into the current block.
\<close>

fun spec_segment ::
  "(string \<times> string) list \<Rightarrow> (string \<times> string) list \<Rightarrow> (string \<times> string) list list"
where
  "spec_segment current [] = (if current = [] then [] else [current])"
| "spec_segment current (p # ps) =
     (if is_boundary p \<and> current \<noteq> [] then current # spec_segment [p] ps
      else spec_segment (current @ [p]) ps)"

text \<open>The block that holds the pairs of one scope: each pair inserted in turn.\<close>

definition block_of :: "(string \<times> string) list \<Rightarrow> subinfo" where
  "block_of ps = foldl (\<lambda>b p. add_value b (strip (fst p)) (strip (snd p))) [] ps"

text \<open>The values that a key receives from the pairs of a list of scopes, in order.\<close>

definition received :: "(string \<times> string) list list \<Rightarrow> string \<Rightarrow> string list" where
  "received scopes key = map (strip \<circ> snd) (filter (\<lambda>p. strip (fst p) = key) (concat scopes))"

text \<open>
  The value of a field that has received the values \<open>vs\<close>, as the specification words the
  invariant of a record (section 3): a set as soon as there is more than one value, or
  when the field is always multi-valued; otherwise the single string.
\<close>

definition spec_field :: "string \<Rightarrow> string list \<Rightarrow> subval option" where
  "spec_field key vs =
     (if vs = [] then None
      else if key \<in> set KNOWN_LIST_FIELDS \<or> 2 \<le> length vs then Some (StrSet (set vs))
      else Some (Str (hd vs)))"

text \<open>
  The scopes of a document under a field filter. The loop drops a pair whose key the
  filter does not allow, except a boundary pair that meets a non-empty block: that pair
  opens the next scope whatever the filter (line 60). With no filter these are the
  scopes of \<^const>\<open>spec_segment\<close>.
\<close>

fun kept_scopes ::
  "string set option \<Rightarrow> (string \<times> string) list \<Rightarrow> (string \<times> string) list
     \<Rightarrow> (string \<times> string) list list"
where
  "kept_scopes flds current [] = (if current = [] then [] else [current])"
| "kept_scopes flds current (p # ps) =
     (if is_boundary p \<and> current \<noteq> [] then current # kept_scopes flds [p] ps
      else if fields_allow flds (strip (fst p)) then kept_scopes flds (current @ [p]) ps
      else kept_scopes flds current ps)"


text \<open>\<^verbatim>\<open>not (res and res.text)\<close> for a request that returns: no response, or one without text.\<close>

fun no_content :: "response \<Rightarrow> bool" where
  "no_content (Raises e) = False"
| "no_content NoResponse = True"
| "no_content (Response ok doc) = (\<not> ok \<or> doc = [])"

text \<open>
  Lines 54 to 56: the pairs as the loop of \<^verbatim>\<open>map_srcinfo\<close> reads them, key and value
  stripped.
\<close>

definition tokens :: "string \<Rightarrow> (string \<times> string) list" where
  "tokens doc = map (\<lambda>field. (strip (fst field), strip (snd field))) (findall doc)"

text \<open>
  A line of a document: a key, the white space before the \<^verbatim>\<open>=\<close>, the white space after
  it, and the text up to the newline.
\<close>

record src_line =
  line_key :: string
  gap_before :: string
  gap_after :: string
  line_text :: string

definition render :: "src_line \<Rightarrow> string" where
  "render l = line_key l @ gap_before l @ ''='' @ gap_after l @ line_text l @ [CHR 0x0A]"

text \<open>
  The lines that the pattern is written for: an identifier, one or more white-space
  characters on each side of the \<^verbatim>\<open>=\<close>, and a text that does not start with white space
  and has no newline in it.
\<close>

definition well_formed :: "src_line \<Rightarrow> bool" where
  "well_formed l \<longleftrightarrow>
     line_key l \<noteq> [] \<and> list_all is_word (line_key l) \<and>
     gap_before l \<noteq> [] \<and> list_all is_space (gap_before l) \<and>
     gap_after l \<noteq> [] \<and> list_all is_space (gap_after l) \<and>
     line_text l \<noteq> [] \<and> \<not> is_space (hd (line_text l)) \<and> list_all not_newline (line_text l)"

text \<open>
  A stretch of text that holds no match: no \<^verbatim>\<open>=\<close> stands at its start or directly after a
  white-space character, and it does not end in an identifier character. The flag says
  whether the character before is known not to be white space.
\<close>

fun no_free_eq :: "bool \<Rightarrow> string \<Rightarrow> bool" where
  "no_free_eq ok [] = True"
| "no_free_eq ok (c # cs) = ((c \<noteq> CHR ''='' \<or> ok) \<and> no_free_eq (\<not> is_space c) cs)"

definition skippable :: "string \<Rightarrow> bool" where
  "skippable j \<longleftrightarrow> no_free_eq False j \<and> (j = [] \<or> \<not> is_word (last j))"

text \<open>
  A document as a sequence of segments: lines of the form that the pattern is written
  for, and stretches of other text between them.
\<close>

datatype segment = Line src_line | Skipped string

fun segment_text :: "segment \<Rightarrow> string" where
  "segment_text (Line l) = render l"
| "segment_text (Skipped j) = j"

fun segment_ok :: "segment \<Rightarrow> bool" where
  "segment_ok (Line l) = well_formed l"
| "segment_ok (Skipped j) = skippable j"

fun segment_pairs :: "segment \<Rightarrow> (string \<times> string) list" where
  "segment_pairs (Line l) = [(line_key l, strip (line_text l))]"
| "segment_pairs (Skipped j) = []"

text \<open>A text that does not start, after its leading white space, with \<^verbatim>\<open>=\<close>.\<close>

definition safe :: "string \<Rightarrow> bool" where
  "safe t \<longleftrightarrow> (case dropWhile is_space t of [] \<Rightarrow> True | c # cs \<Rightarrow> c \<noteq> CHR ''='')"

subsection \<open>Example documents and transports\<close>

text \<open>
  A document of a base \<^verbatim>\<open>foo\<close> with the two sub-packages \<^verbatim>\<open>foo\<close> and \<^verbatim>\<open>foo-git\<close>.
\<close>

definition demo_doc :: string where
  "demo_doc = ''pkgbase = foo\<newline>pkgname = foo\<newline>depends = glibc\<newline>pkgname = foo-git\<newline>depends = git\<newline>''"

text \<open>
  A transport that has the document of \<^verbatim>\<open>foo\<close> only, and whose info endpoint knows
  \<^verbatim>\<open>foo-git\<close> as a package of the base \<^verbatim>\<open>foo\<close>. Sets are listed in sorted order.
\<close>

definition demo_client :: client where
  "demo_client =
     \<lparr>http_get = (\<lambda>h u. if u = URL_SRC_INFO ''foo'' then Response True demo_doc else NoResponse),
      http_get_json = (\<lambda>h u. if u = URL_INFO [''foo-git'']
                             then JsonObject (Some [\<lparr>Name = Some ''foo-git'', PackageBase = Some ''foo''\<rparr>])
                             else JsonObject (Some [])),
      x86_64 = True,
      set_order = sorted_list_of_set\<rparr>"

text \<open>A transport without a connection: every request raises \<^verbatim>\<open>ConnectionError\<close>.\<close>

definition offline_client :: client where
  "offline_client =
     \<lparr>http_get = (\<lambda>h u. Raises ConnectionError),
      http_get_json = (\<lambda>h u. JsonRaises ConnectionError),
      x86_64 = True,
      set_order = sorted_list_of_set\<rparr>"


text \<open>
  A transport on which \<^verbatim>\<open>a\<close> is reported as a package of the base \<^verbatim>\<open>b\<close>, and \<^verbatim>\<open>b\<close> as a
  package of the base \<^verbatim>\<open>c\<close>; only \<^verbatim>\<open>c\<close> has a document.
\<close>

definition chain_client :: client where
  "chain_client =
     \<lparr>http_get = (\<lambda>h u. if u = URL_SRC_INFO ''c'' then Response True ''pkgname = c\<newline>''
                         else NoResponse),
      http_get_json = (\<lambda>h u.
         if u = URL_INFO [''a'']
         then JsonObject (Some [\<lparr>Name = Some ''a'', PackageBase = Some ''b''\<rparr>])
         else if u = URL_INFO [''b'']
         then JsonObject (Some [\<lparr>Name = Some ''b'', PackageBase = Some ''c''\<rparr>])
         else JsonObject (Some [])),
      x86_64 = True,
      set_order = sorted_list_of_set\<rparr>"

section \<open>Dependency extraction\<close>

lemma extract_required_dependencies_eq:
  "extract_required_dependencies x86 r =
     (\<Union>a \<in> set (dependency_attrs x86). case map_of r a of None \<Rightarrow> {} | Some v \<Rightarrow> items v)"
proof -
  have items_empty: "items v = {}" if "\<not> val_truthy v" for v
    using that by (cases v) auto
  have step: "foldl (\<lambda>deps attr.
              case map_of r attr of
                None \<Rightarrow> deps
              | Some v \<Rightarrow> if val_truthy v then deps \<union> items v else deps) D as
        = D \<union> (\<Union>a \<in> set as. case map_of r a of None \<Rightarrow> {} | Some v \<Rightarrow> items v)" for D as
    by (induction as arbitrary: D) (auto simp: items_empty split: option.splits)
  show ?thesis
    unfolding extract_required_dependencies_def step by simp
qed

text \<open>
  Claim C8. The dependencies extracted from a record are exactly the union of the items
  of the fields present among \<^verbatim>\<open>makedepends\<close>, \<^verbatim>\<open>depends\<close>, \<^verbatim>\<open>checkdepends\<close> and their variants
  for the one architecture of the client. The fields of the other architecture are
  ignored: a record with only \<^verbatim>\<open>depends_i686\<close> gives the empty set under x86_64, a record
  with only \<^verbatim>\<open>depends\<close> gives that field's values under both architectures, and a record
  with none of the six fields gives the empty set.
\<close>

theorem extract_required_dependencies_union:
  "extract_required_dependencies x86 r =
     (\<Union>a \<in> {''makedepends'', ''depends'', ''checkdepends'',
               ''makedepends_'' @ (if x86 then ''x86_64'' else ''i686''),
               ''depends_'' @ (if x86 then ''x86_64'' else ''i686''),
               ''checkdepends_'' @ (if x86 then ''x86_64'' else ''i686'')}.
        case map_of r a of None \<Rightarrow> {} | Some v \<Rightarrow> items v)
   \<and> extract_required_dependencies True [(''depends_i686'', Multi ds)] = {}
   \<and> extract_required_dependencies x86 [(''depends'', Multi ds)] = set ds
   \<and> ((\<forall>a \<in> set (dependency_attrs x86). map_of r a = None)
        \<longrightarrow> extract_required_dependencies x86 r = {})"
proof (intro conjI impI)
  have attrs: "set (dependency_attrs x86) =
      {''makedepends'', ''depends'', ''checkdepends'',
       ''makedepends_'' @ (if x86 then ''x86_64'' else ''i686''),
       ''depends_'' @ (if x86 then ''x86_64'' else ''i686''),
       ''checkdepends_'' @ (if x86 then ''x86_64'' else ''i686'')}"
    by (auto simp: dependency_attrs_def Let_def)
  show "extract_required_dependencies x86 r =
     (\<Union>a \<in> {''makedepends'', ''depends'', ''checkdepends'',
               ''makedepends_'' @ (if x86 then ''x86_64'' else ''i686''),
               ''depends_'' @ (if x86 then ''x86_64'' else ''i686''),
               ''checkdepends_'' @ (if x86 then ''x86_64'' else ''i686'')}.
        case map_of r a of None \<Rightarrow> {} | Some v \<Rightarrow> items v)"
    unfolding extract_required_dependencies_eq attrs ..
  show "extract_required_dependencies True [(''depends_i686'', Multi ds)] = {}"
    by (simp add: extract_required_dependencies_eq dependency_attrs_def Let_def)
  show "extract_required_dependencies x86 [(''depends'', Multi ds)] = set ds"
    by (simp add: extract_required_dependencies_eq dependency_attrs_def Let_def)
  show "extract_required_dependencies x86 r = {}"
    if "\<forall>a \<in> set (dependency_attrs x86). map_of r a = None"
    using that by (simp add: extract_required_dependencies_eq)
qed

theorem extract_required_dependencies_union_witness:
  "map_of [(''depends_i686'', Multi [''glibc''])] ''depends_x86_64'' = None
   \<and> extract_required_dependencies True [(''depends_i686'', Multi [''glibc''])] = {}
   \<and> extract_required_dependencies False [(''depends_i686'', Multi [''glibc''])] = {''glibc''}"
proof -
  have none: "\<forall>a \<in> set (dependency_attrs True).
      map_of [(''depends_i686'', Multi [''glibc''])] a = None"
    by (simp add: dependency_attrs_def Let_def)
  have "extract_required_dependencies True [(''depends_i686'', Multi [''glibc''])] = {}"
    using extract_required_dependencies_union
            [of True "[(''depends_i686'', Multi [''glibc''])]" "[]"] none
    by blast
  moreover have
    "extract_required_dependencies False [(''depends_i686'', Multi [''glibc''])] = {''glibc''}"
    using extract_required_dependencies_union
            [of False "[(''depends_i686'', Multi [''glibc''])]" "[]"]
    by simp
  ultimately show ?thesis by simp
qed

section \<open>The merge and its target\<close>

lemma foldl_if_filter:
  "foldl (\<lambda>a b. if P b then f a b else a) a bs = foldl f a (filter P bs)"
  by (induction bs arbitrary: a) auto

lemma selected_None [simp]: "selected None b"
  by (simp add: selected_def)

lemma merge_loop_filter:
  "merge_loop bs p flds = merge_loop (filter (selected p) bs) None flds"
  by (simp add: merge_loop_def foldl_if_filter)

lemma merge_subinfos_filter:
  "merge_subinfos enum bs p flds = merge_subinfos enum (filter (selected p) bs) None flds"
  unfolding merge_subinfos_def by (subst merge_loop_filter) simp

lemma selected_Some:
  "t \<noteq> [] \<Longrightarrow> selected (Some t) b \<longleftrightarrow> map_of b ''pkgname'' \<in> {None, Some (Str t)}"
  by (auto simp: selected_def split: option.splits subval.splits)

lemma pkgnames_Inr:
  "pkgnames bs = Inr names \<Longrightarrow>
     names = {n. \<exists>b \<in> set bs. map_of b ''pkgname'' = Some (Str n)} \<and>
     (\<forall>b \<in> set bs. scalar_pkgname b)"
proof (induction bs arbitrary: names)
  case Nil
  then show ?case by simp
next
  case (Cons b bs)
  show ?case
  proof (cases "map_of b ''pkgname''")
    case None
    with Cons show ?thesis by (auto simp: scalar_pkgname_def)
  next
    case (Some v)
    show ?thesis
    proof (cases v)
      case (Str n)
      with Some Cons.prems obtain ns where ns: "pkgnames bs = Inr ns" "names = insert n ns"
        by (auto split: sum.splits)
      from Cons.IH [OF ns(1)] Some Str ns(2) show ?thesis
        by (auto simp: scalar_pkgname_def)
    next
      case (StrSet S)
      with Some Cons.prems show ?thesis by simp
    qed
  qed
qed

lemma pkgnames_total:
  "\<forall>b \<in> set bs. scalar_pkgname b \<Longrightarrow> \<exists>names. pkgnames bs = Inr names"
proof (induction bs)
  case Nil
  then show ?case by simp
next
  case (Cons b bs)
  then obtain ns where "pkgnames bs = Inr ns" by auto
  with Cons.prems show ?case
    by (auto simp: scalar_pkgname_def split: option.splits subval.splits)
qed

lemma merge_blocks_target:
  assumes names: "pkgnames bs = Inr names" and t: "t \<noteq> []"
  shows "merge_blocks enum bs (Some t) flds =
           Inr (merge_subinfos enum
                  (if t \<in> names then filter (\<lambda>b. map_of b ''pkgname'' \<in> {None, Some (Str t)}) bs
                   else bs)
                  None flds)"
proof (cases "t \<in> names")
  case False
  with names show ?thesis by (simp add: merge_blocks_def merge_pkgname_def)
next
  case True
  have sel: "filter (selected (Some t)) bs =
             filter (\<lambda>b. map_of b ''pkgname'' \<in> {None, Some (Str t)}) bs"
    using t by (intro filter_cong refl) (simp add: selected_Some)
  show ?thesis
  proof (cases "card names = 1")
    case False
    with True names t show ?thesis
      by (simp add: merge_blocks_def merge_pkgname_def merge_subinfos_filter [of _ _ "Some t"] sel)
  next
    case one: True
    with True have eq: "names = {t}" by (auto simp: card_1_singleton_iff)
    have "map_of b ''pkgname'' \<in> {None, Some (Str t)}" if "b \<in> set bs" for b
    proof (cases "map_of b ''pkgname''")
      case None
      then show ?thesis by simp
    next
      case (Some v)
      from pkgnames_Inr [OF names] that have sc: "scalar_pkgname b" by blast
      with Some obtain n where n: "v = Str n" by (cases v) (auto simp: scalar_pkgname_def)
      with Some that pkgnames_Inr [OF names] have "n \<in> names" by blast
      with eq n Some show ?thesis by simp
    qed
    then have "filter (\<lambda>b. map_of b ''pkgname'' \<in> {None, Some (Str t)}) bs = bs"
      by (simp add: filter_id_conv)
    with True names one show ?thesis
      by (simp add: merge_blocks_def merge_pkgname_def)
  qed
qed

section \<open>The lookup and the cache\<close>

lemma get_info_state:
  "get_info c names s = (infos, s2) \<Longrightarrow>
     s2 = s\<lparr>sent := sent s @ [URL_INFO names]\<rparr>"
  by (auto simp: get_info_def)

lemma cache_store_sent [simp]: "sent (cache_store name r s) = sent s"
  by (simp add: cache_store_def)

lemma cache_store_ok: "cache_ok s \<Longrightarrow> cache_ok (cache_store name r s)"
  by (cases r) (auto simp: cache_store_def cache_ok_def)

lemma cache_store_nonempty:
  "nonempty r \<Longrightarrow> srcinfo_cache (cache_store name r s) name = r"
  by (cases r) (auto simp: cache_store_def)

lemma cache_store_empty:
  "\<not> nonempty r \<Longrightarrow> cache_store name r s = s"
  by (simp add: cache_store_def)

lemma lookup_parsed_cases:
  "(\<exists>e. lookup_parsed c name rn text s1 = Return (Inl e, s1)) \<or>
   (\<exists>r. lookup_parsed c name rn text s1 = Return (Inr (Some r), cache_store name (Some r) s1))"
  by (auto simp: lookup_parsed_def split: sum.splits)

lemma lookup_fallback_cases:
  "lookup_fallback c name s1 = Return (Inr None, s1\<lparr>sent := sent s1 @ [URL_INFO [name]]\<rparr>) \<or>
   (\<exists>b r. lookup_fallback c name s1 = Recurse b r (s1\<lparr>sent := sent s1 @ [URL_INFO [name]]\<rparr>))"
  by (auto simp: lookup_fallback_def split: prod.splits list.splits dest: get_info_state)

text \<open>The ways a call can go before it recurses.\<close>

lemma lookup_start_cases:
  obtains
    (hit) r where "srcinfo_cache s name = Some r" "r \<noteq> []"
      "lookup_start c name rn s = Return (Inr (Some r), s)"
  | (raises) e where "\<not> nonempty (srcinfo_cache s name)"
      "lookup_start c name rn s = Return (Inl e, s\<lparr>sent := sent s @ [URL_SRC_INFO name]\<rparr>)"
  | (parsed) r where "\<not> nonempty (srcinfo_cache s name)"
      "lookup_start c name rn s =
         Return (Inr (Some r), cache_store name (Some r) (s\<lparr>sent := sent s @ [URL_SRC_INFO name]\<rparr>))"
  | (absent) "\<not> nonempty (srcinfo_cache s name)"
      "lookup_start c name rn s =
         Return (Inr None, s\<lparr>sent := sent s @ [URL_SRC_INFO name, URL_INFO [name]]\<rparr>)"
  | (recurse) b r where "\<not> nonempty (srcinfo_cache s name)"
      "lookup_start c name rn s =
         Recurse b r (s\<lparr>sent := sent s @ [URL_SRC_INFO name, URL_INFO [name]]\<rparr>)"
proof (cases "nonempty (srcinfo_cache s name)")
  case True
  then obtain r where "srcinfo_cache s name = Some r" "r \<noteq> []"
    by (cases "srcinfo_cache s name") auto
  with True hit show ?thesis by (simp add: lookup_start_def)
next
  case False
  let ?s1 = "s\<lparr>sent := sent s @ [URL_SRC_INFO name]\<rparr>"
  have fb: ?thesis if "lookup_start c name rn s = lookup_fallback c name ?s1"
    using lookup_fallback_cases [of c name ?s1] that False absent recurse by auto
  show ?thesis
  proof (cases "http_get c (sent s) (URL_SRC_INFO name)")
    case (Raises e)
    with False raises show ?thesis by (simp add: lookup_start_def)
  next
    case NoResponse
    with False fb show ?thesis by (simp add: lookup_start_def)
  next
    case (Response ok doc)
    show ?thesis
    proof (cases "ok \<and> doc \<noteq> []")
      case True
      with Response False have "lookup_start c name rn s = lookup_parsed c name rn doc ?s1"
        by (simp add: lookup_start_def)
      with lookup_parsed_cases [of c name rn doc ?s1] False raises parsed show ?thesis
        by auto
    next
      case no: False
      with Response False fb show ?thesis by (simp add: lookup_start_def)
    qed
  qed
qed


lemma get_src_info_SucE:
  assumes "get_src_info (Suc fuel) c name rn s = Some (out, s')"
  obtains
    (return) "lookup_start c name rn s = Return (out, s')"
  | (inner_raises) b r s2 e where "lookup_start c name rn s = Recurse b r s2"
      "get_src_info fuel c b r s2 = Some (Inl e, s')" "out = Inl e"
  | (inner_returns) b r s2 res s3 where "lookup_start c name rn s = Recurse b r s2"
      "get_src_info fuel c b r s2 = Some (Inr res, s3)" "out = Inr res"
      "s' = cache_store name res s3"
  using assms by (auto split: lookup.splits option.splits sum.splits)

lemma get_src_info_hit:
  "nonempty (srcinfo_cache s name) \<Longrightarrow>
     get_src_info (Suc fuel) c name rn s = Some (Inr (srcinfo_cache s name), s)"
  by (simp add: lookup_start_def)

lemma get_src_info_cache_ok:
  "get_src_info fuel c name rn s = Some (out, s') \<Longrightarrow> cache_ok s \<Longrightarrow> cache_ok s'"
proof (induction fuel arbitrary: name rn s out s')
  case 0
  then show ?case by simp
next
  case (Suc fuel)
  have upd: "cache_ok (t\<lparr>sent := u\<rparr>) = cache_ok t" for t u
    by (simp add: cache_ok_def)
  from Suc.prems(1) show ?case
  proof (cases rule: get_src_info_SucE)
    case return
    with Suc.prems(2) show ?thesis
      by (cases rule: lookup_start_cases [of s name c rn]) (auto simp: upd intro: cache_store_ok)
  next
    case (inner_raises b r s2 e)
    with Suc.prems(2) have "cache_ok s2"
      by (cases rule: lookup_start_cases [of s name c rn]) (auto simp: upd)
    with inner_raises Suc.IH show ?thesis by blast
  next
    case (inner_returns b r s2 res s3)
    with Suc.prems(2) have "cache_ok s2"
      by (cases rule: lookup_start_cases [of s name c rn]) (auto simp: upd)
    with inner_returns Suc.IH have "cache_ok s3" by blast
    with inner_returns show ?thesis by (simp add: cache_store_ok)
  qed
qed

lemma get_src_info_stored:
  "get_src_info fuel c name rn s = Some (Inr r, s') \<Longrightarrow> nonempty r \<Longrightarrow>
     srcinfo_cache s' name = r"
proof (cases fuel)
  case 0
  assume "get_src_info fuel c name rn s = Some (Inr r, s')"
  with 0 show ?thesis by simp
next
  case (Suc n)
  assume ne: "nonempty r" and "get_src_info fuel c name rn s = Some (Inr r, s')"
  then have "get_src_info (Suc n) c name rn s = Some (Inr r, s')" using Suc by simp
  then show ?thesis
  proof (cases rule: get_src_info_SucE)
    case return
    with ne show ?thesis
      by (cases rule: lookup_start_cases [of s name c rn]) (auto simp: cache_store_nonempty)
  next
    case (inner_raises b r s2 e)
    then show ?thesis by simp
  next
    case (inner_returns b r' s2 res s3)
    with ne show ?thesis by (simp add: cache_store_nonempty)
  qed
qed

lemma get_src_info_not_stored:
  "get_src_info fuel c name rn s = Some (out, s') \<Longrightarrow>
     (\<And>r. out = Inr r \<Longrightarrow> \<not> nonempty r) \<Longrightarrow> srcinfo_cache s' = srcinfo_cache s"
proof (induction fuel arbitrary: name rn s out s')
  case 0
  then show ?case by simp
next
  case (Suc fuel)
  from Suc.prems(1) show ?case
  proof (cases rule: get_src_info_SucE)
    case return
    with Suc.prems(2) show ?thesis
      by (cases rule: lookup_start_cases [of s name c rn]) (auto simp: cache_store_empty)
  next
    case (inner_raises b r s2 e)
    then have "srcinfo_cache s2 = srcinfo_cache s"
      by (cases rule: lookup_start_cases [of s name c rn]) auto
    moreover have "srcinfo_cache s' = srcinfo_cache s2"
      using inner_raises Suc.IH [of b r s2 "Inl e" s'] by simp
    ultimately show ?thesis by simp
  next
    case (inner_returns b r s2 res s3)
    then have "srcinfo_cache s2 = srcinfo_cache s"
      by (cases rule: lookup_start_cases [of s name c rn]) auto
    moreover have res: "\<not> nonempty res" using inner_returns Suc.prems(2) by simp
    moreover have "srcinfo_cache s3 = srcinfo_cache s2"
      using inner_returns res Suc.IH [of b r s2 "Inr res" s3] by simp
    ultimately show ?thesis using inner_returns by (simp add: cache_store_empty)
  qed
qed

lemma get_src_info_sent:
  "get_src_info fuel c name rn s = Some (out, s') \<Longrightarrow> \<exists>us. sent s' = sent s @ us"
proof (induction fuel arbitrary: name rn s out s')
  case 0
  then show ?case by simp
next
  case (Suc fuel)
  from Suc.prems(1) show ?case
  proof (cases rule: get_src_info_SucE)
    case return
    then show ?thesis
      by (cases rule: lookup_start_cases [of s name c rn]) auto
  next
    case (inner_raises b r s2 e)
    then have "\<exists>us. sent s2 = sent s @ us"
      by (cases rule: lookup_start_cases [of s name c rn]) auto
    moreover have "\<exists>us. sent s' = sent s2 @ us"
      using inner_raises Suc.IH by blast
    ultimately show ?thesis by auto
  next
    case (inner_returns b r s2 res s3)
    then have "\<exists>us. sent s2 = sent s @ us"
      by (cases rule: lookup_start_cases [of s name c rn]) auto
    moreover have "\<exists>us. sent s3 = sent s2 @ us"
      using inner_returns Suc.IH by blast
    ultimately show ?thesis using inner_returns by auto
  qed
qed

lemma get_src_info_fetches:
  assumes "get_src_info fuel c name rn s = Some (out, s')"
    and "\<not> nonempty (srcinfo_cache s name)"
  shows "\<exists>us. sent s' = sent s @ URL_SRC_INFO name # us"
proof (cases fuel)
  case 0
  with assms show ?thesis by simp
next
  case (Suc n)
  with assms have "get_src_info (Suc n) c name rn s = Some (out, s')" by simp
  then show ?thesis
  proof (cases rule: get_src_info_SucE)
    case return
    with assms(2) show ?thesis
      by (cases rule: lookup_start_cases [of s name c rn]) auto
  next
    case (inner_raises b r s2 e)
    then have "sent s2 = sent s @ [URL_SRC_INFO name, URL_INFO [name]]"
      by (cases rule: lookup_start_cases [of s name c rn]) auto
    moreover have "\<exists>us. sent s' = sent s2 @ us"
      using inner_raises get_src_info_sent by blast
    ultimately show ?thesis by auto
  next
    case (inner_returns b r s2 res s3)
    then have "sent s2 = sent s @ [URL_SRC_INFO name, URL_INFO [name]]"
      by (cases rule: lookup_start_cases [of s name c rn]) auto
    moreover have "\<exists>us. sent s3 = sent s2 @ us"
      using inner_returns get_src_info_sent by blast
    ultimately show ?thesis using inner_returns by auto
  qed
qed

section \<open>The cache holds non-empty records only\<close>

lemmas tokenizer_defs = match_at_def is_word_def in_range_def is_space_def not_newline_def Let_def
lemmas block_defs = srcinfo_blocks_def srcinfo_step_def strip_def is_space_def key_fields_def
  fields_allow_def add_value_def KNOWN_LIST_FIELDS_def Let_def
lemmas merge_defs = merge_blocks_def merge_pkgname_def merge_subinfos_def merge_loop_def
  merge_subinfo_def merge_value_def selected_def fields_allow_def

lemma findall_demo_doc:
  "findall demo_doc =
     [(''pkgbase'', ''foo''), (''pkgname'', ''foo''), (''depends'', ''glibc''),
      (''pkgname'', ''foo-git''), (''depends'', ''git'')]"
  by (simp add: demo_doc_def tokenizer_defs)

lemma blocks_demo_doc:
  "srcinfo_blocks None (findall demo_doc) =
     [[(''pkgbase'', Str ''foo'')],
      [(''pkgname'', Str ''foo''), (''depends'', StrSet {''glibc''})],
      [(''pkgname'', Str ''foo-git''), (''depends'', StrSet {''git''})]]"
  unfolding findall_demo_doc by (simp add: block_defs)

lemma map_srcinfo_demo_foo:
  "map_srcinfo sorted_list_of_set demo_doc (Some ''foo'') None =
     Inr [(''pkgbase'', Single ''foo''), (''pkgname'', Single ''foo''),
          (''depends'', Multi [''glibc''])]"
  unfolding map_srcinfo_def blocks_demo_doc by (simp add: merge_defs)

lemma map_srcinfo_demo_foo_git:
  "map_srcinfo sorted_list_of_set demo_doc (Some ''foo-git'') None =
     Inr [(''pkgbase'', Single ''foo''), (''pkgname'', Single ''foo-git''),
          (''depends'', Multi [''git''])]"
  unfolding map_srcinfo_def blocks_demo_doc by (simp add: merge_defs)

lemma demo_doc_nonempty: "demo_doc \<noteq> []"
  by (simp add: demo_doc_def)

lemmas lookup_defs = lookup_start_def lookup_parsed_def lookup_fallback_def get_info_def
  cache_store_def init_def Let_def

lemma get_src_info_demo_foo:
  "get_src_info (Suc 0) demo_client ''foo'' None init =
     Some (Inr (Some [(''pkgbase'', Single ''foo''), (''pkgname'', Single ''foo''),
          (''depends'', Multi [''glibc''])]),
       \<lparr>srcinfo_cache = [''foo'' \<mapsto> [(''pkgbase'', Single ''foo''), (''pkgname'', Single ''foo''),
          (''depends'', Multi [''glibc''])]], sent = [URL_SRC_INFO ''foo'']\<rparr>)"
  by (simp add: lookup_defs demo_client_def map_srcinfo_demo_foo demo_doc_nonempty)

lemma get_src_info_demo_foo_git:
  "get_src_info (Suc (Suc 0)) demo_client ''foo-git'' None init =
     Some (Inr (Some [(''pkgbase'', Single ''foo''), (''pkgname'', Single ''foo-git''),
          (''depends'', Multi [''git''])]),
       \<lparr>srcinfo_cache = [''foo'' \<mapsto> [(''pkgbase'', Single ''foo''), (''pkgname'', Single ''foo-git''),
          (''depends'', Multi [''git''])], ''foo-git'' \<mapsto> [(''pkgbase'', Single ''foo''), (''pkgname'', Single ''foo-git''),
          (''depends'', Multi [''git''])]], sent = [URL_SRC_INFO ''foo-git'', URL_INFO [''foo-git''], URL_SRC_INFO ''foo'']\<rparr>)"
  by (simp add: lookup_defs demo_client_def map_srcinfo_demo_foo_git demo_doc_nonempty)

lemma get_src_info_nope:
  "get_src_info (Suc fuel) demo_client ''nope'' None
       \<lparr>srcinfo_cache = m, sent = us\<rparr> =
     (if nonempty (m ''nope'') then Some (Inr (m ''nope''), \<lparr>srcinfo_cache = m, sent = us\<rparr>)
      else Some (Inr None, \<lparr>srcinfo_cache = m, sent = us @ [URL_SRC_INFO ''nope'', URL_INFO [''nope'']]\<rparr>))"
  by (simp add: lookup_defs demo_client_def)

lemma clean_caches_ok: "cache_ok (clean_caches s)"
  by (simp add: clean_caches_def cache_ok_def)

lemma init_ok: "cache_ok init"
  by (simp add: init_def cache_ok_def)

lemma get_required_dependencies_state:
  "get_required_dependencies fuel c name s = Some (out, s') \<Longrightarrow>
     \<exists>out'. get_src_info fuel c name None s = Some (out', s')"
  by (auto simp: get_required_dependencies_def split: option.splits sum.splits if_splits)

lemma run_cache_ok:
  "run fuel c calls s = Some s' \<Longrightarrow> cache_ok s \<Longrightarrow> cache_ok s'"
proof (induction calls arbitrary: s)
  case Nil
  then show ?case by simp
next
  case (Cons a calls)
  show ?case
  proof (cases a)
    case (Get_src_info name rn)
    with Cons.prems obtain out s1 where
      "get_src_info fuel c name rn s = Some (out, s1)" "run fuel c calls s1 = Some s'"
      by (auto split: option.splits)
    with Cons.IH Cons.prems(2) show ?thesis
      by (blast dest: get_src_info_cache_ok)
  next
    case (Get_required_dependencies name)
    with Cons.prems obtain out s1 where
      "get_required_dependencies fuel c name s = Some (out, s1)" "run fuel c calls s1 = Some s'"
      by (auto split: option.splits)
    with Cons.IH Cons.prems(2) show ?thesis
      by (blast dest: get_required_dependencies_state get_src_info_cache_ok)
  next
    case Clean_caches
    with Cons.prems Cons.IH show ?thesis
      by (auto intro: clean_caches_ok)
  qed
qed

lemma get_src_info_hit_result:
  assumes "get_src_info fuel c name rn s = Some (out, s')"
    and "nonempty (srcinfo_cache s name)"
  shows "out = Inr (srcinfo_cache s name) \<and> s' = s"
proof (cases fuel)
  case 0
  with assms show ?thesis by simp
next
  case (Suc n)
  with assms get_src_info_hit [of s name n c rn] show ?thesis by simp
qed

lemma empty_result_uncached:
  assumes run: "get_src_info fuel c name rn s = Some (out, s')"
    and out: "out = Inr None \<or> out = Inr (Some [])"
    and ok: "cache_ok s"
  shows "srcinfo_cache s' = srcinfo_cache s \<and> srcinfo_cache s' name = None"
proof -
  have same: "srcinfo_cache s' = srcinfo_cache s"
    using out by (intro get_src_info_not_stored [OF run]) auto
  have "\<not> nonempty (srcinfo_cache s name)"
    using get_src_info_hit_result [OF run] out by (cases "srcinfo_cache s name") auto
  with ok have "srcinfo_cache s name = None"
    by (cases "srcinfo_cache s name") (auto simp: cache_ok_def)
  with same show ?thesis by simp
qed

text \<open>
  Claim C10. After any sequence of lookups (with their fallbacks), dependency lookups and
  cache clears on a fresh client, every record in the cache is a non-empty mapping, and
  a further lookup keeps it so. A lookup that returns \<^verbatim>\<open>None\<close> or the empty record stores
  nothing: it leaves the cache as it was, with no entry for the name, and a later lookup
  of the same name requests the document again. A lookup that returns a non-empty record
  has stored it under the name.
\<close>

theorem srcinfo_cache_only_nonempty:
  assumes "run fuel c calls init = Some s"
  shows "cache_ok s \<and>
    (\<forall>fuel1 name rn out s1.
        get_src_info fuel1 c name rn s = Some (out, s1) \<longrightarrow>
          cache_ok s1 \<and>
          (\<forall>r. out = Inr (Some r) \<and> r \<noteq> [] \<longrightarrow> srcinfo_cache s1 name = Some r) \<and>
          (out = Inr None \<or> out = Inr (Some []) \<longrightarrow>
             srcinfo_cache s1 = srcinfo_cache s \<and> srcinfo_cache s1 name = None \<and>
             (\<forall>fuel2 rn2 out2 s2.
                 get_src_info fuel2 c name rn2 s1 = Some (out2, s2) \<longrightarrow>
                   (\<exists>us. sent s2 = sent s1 @ URL_SRC_INFO name # us))))"
proof -
  have ok: "cache_ok s" using assms init_ok by (rule run_cache_ok)
  have "cache_ok s1 \<and>
          (\<forall>r. out = Inr (Some r) \<and> r \<noteq> [] \<longrightarrow> srcinfo_cache s1 name = Some r) \<and>
          (out = Inr None \<or> out = Inr (Some []) \<longrightarrow>
             srcinfo_cache s1 = srcinfo_cache s \<and> srcinfo_cache s1 name = None \<and>
             (\<forall>fuel2 rn2 out2 s2.
                 get_src_info fuel2 c name rn2 s1 = Some (out2, s2) \<longrightarrow>
                   (\<exists>us. sent s2 = sent s1 @ URL_SRC_INFO name # us)))"
    if run: "get_src_info fuel1 c name rn s = Some (out, s1)" for fuel1 name rn out s1
  proof (intro conjI allI impI)
    show "cache_ok s1" using run ok by (rule get_src_info_cache_ok)
  next
    fix r assume "out = Inr (Some r) \<and> r \<noteq> []"
    with run get_src_info_stored [of fuel1 c name rn s "Some r" s1]
    show "srcinfo_cache s1 name = Some r" by simp
  next
    assume out: "out = Inr None \<or> out = Inr (Some [])"
    note unc = empty_result_uncached [OF run out ok]
    show "srcinfo_cache s1 = srcinfo_cache s" by (rule unc [THEN conjunct1])
    show none: "srcinfo_cache s1 name = None" by (rule unc [THEN conjunct2])
    fix fuel2 rn2 out2 s2
    assume "get_src_info fuel2 c name rn2 s1 = Some (out2, s2)"
    then show "\<exists>us. sent s2 = sent s1 @ URL_SRC_INFO name # us"
      by (rule get_src_info_fetches) (simp add: none)
  qed
  with ok show ?thesis by blast
qed

theorem srcinfo_cache_only_nonempty_witness:
  "run 1 demo_client [Get_src_info ''foo'' None, Clean_caches, Get_src_info ''nope'' None] init =
     Some \<lparr>srcinfo_cache = Map.empty,
           sent = [URL_SRC_INFO ''foo'', URL_SRC_INFO ''nope'', URL_INFO [''nope'']]\<rparr>
   \<and> get_src_info 1 demo_client ''nope'' None
         \<lparr>srcinfo_cache = Map.empty,
          sent = [URL_SRC_INFO ''foo'', URL_SRC_INFO ''nope'', URL_INFO [''nope'']]\<rparr> =
       Some (Inr None,
             \<lparr>srcinfo_cache = Map.empty,
              sent = [URL_SRC_INFO ''foo'', URL_SRC_INFO ''nope'', URL_INFO [''nope''],
                      URL_SRC_INFO ''nope'', URL_INFO [''nope'']]\<rparr>)
   \<and> cache_ok \<lparr>srcinfo_cache = Map.empty,
          sent = [URL_SRC_INFO ''foo'', URL_SRC_INFO ''nope'', URL_INFO [''nope''],
                  URL_SRC_INFO ''nope'', URL_INFO [''nope'']]\<rparr>"
proof -
  let ?s = "\<lparr>srcinfo_cache = Map.empty,
           sent = [URL_SRC_INFO ''foo'', URL_SRC_INFO ''nope'', URL_INFO [''nope'']]\<rparr>"
  have run: "run 1 demo_client [Get_src_info ''foo'' None, Clean_caches, Get_src_info ''nope'' None]
      init = Some ?s"
    by (simp add: get_src_info_demo_foo clean_caches_def get_src_info_nope
          del: get_src_info.simps)
  have again: "get_src_info 1 demo_client ''nope'' None ?s =
       Some (Inr None,
             \<lparr>srcinfo_cache = Map.empty,
              sent = [URL_SRC_INFO ''foo'', URL_SRC_INFO ''nope'', URL_INFO [''nope''],
                      URL_SRC_INFO ''nope'', URL_INFO [''nope'']]\<rparr>)"
    by (simp add: get_src_info_nope del: get_src_info.simps)
  from srcinfo_cache_only_nonempty [OF run] again run show ?thesis by blast
qed

text \<open>
  Claim C4, as amended. When a lookup of a name returns a non-empty record, a second
  lookup of that name with no cache clear in between returns the same record and leaves
  the state as it is: it sends no request.
\<close>

theorem get_src_info_second_call_cached:
  assumes "get_src_info fuel c name rn s = Some (Inr (Some r), s1)" and "r \<noteq> []"
  shows "get_src_info (Suc fuel2) c name rn2 s1 = Some (Inr (Some r), s1)"
proof -
  have "srcinfo_cache s1 name = Some r"
    using get_src_info_stored [OF assms(1)] assms(2) by simp
  then show ?thesis
    using get_src_info_hit [of s1 name fuel2 c rn2] assms(2) by simp
qed

theorem get_src_info_second_call_cached_witness:
  "get_src_info 1 demo_client ''foo'' None init =
     Some (Inr (Some [(''pkgbase'', Single ''foo''), (''pkgname'', Single ''foo''),
                      (''depends'', Multi [''glibc''])]),
           \<lparr>srcinfo_cache = [''foo'' \<mapsto> [(''pkgbase'', Single ''foo''),
                 (''pkgname'', Single ''foo''), (''depends'', Multi [''glibc''])]],
            sent = [URL_SRC_INFO ''foo'']\<rparr>)
   \<and> get_src_info 1 demo_client ''foo'' None
         \<lparr>srcinfo_cache = [''foo'' \<mapsto> [(''pkgbase'', Single ''foo''),
                 (''pkgname'', Single ''foo''), (''depends'', Multi [''glibc''])]],
          sent = [URL_SRC_INFO ''foo'']\<rparr> =
     Some (Inr (Some [(''pkgbase'', Single ''foo''), (''pkgname'', Single ''foo''),
                      (''depends'', Multi [''glibc''])]),
           \<lparr>srcinfo_cache = [''foo'' \<mapsto> [(''pkgbase'', Single ''foo''),
                 (''pkgname'', Single ''foo''), (''depends'', Multi [''glibc''])]],
            sent = [URL_SRC_INFO ''foo'']\<rparr>)"
  using get_src_info_second_call_cached [OF get_src_info_demo_foo, of 0 None]
    get_src_info_demo_foo
  by (simp del: get_src_info.simps)

text \<open>
  Claim C4 as stated fails for a name that resolves to nothing: the second lookup
  requests the document (and the info entry) again.
\<close>

theorem get_src_info_second_call_counterexample:
  "run 1 demo_client [Get_src_info ''nope'' None, Get_src_info ''nope'' None] init =
     Some \<lparr>srcinfo_cache = Map.empty,
           sent = [URL_SRC_INFO ''nope'', URL_INFO [''nope''],
                   URL_SRC_INFO ''nope'', URL_INFO [''nope'']]\<rparr>"
  by (simp add: init_def get_src_info_nope del: get_src_info.simps)

section \<open>Required dependencies and failures of the transport\<close>

lemma pkgnames_error: "pkgnames bs = Inl e \<Longrightarrow> e = TypeError"
  by (induction bs) (auto split: option.splits subval.splits sum.splits)

lemma map_srcinfo_error: "map_srcinfo enum doc p flds = Inl e \<Longrightarrow> e = TypeError"
  by (auto simp: map_srcinfo_def merge_blocks_def split: sum.splits dest: pkgnames_error)

lemma lookup_start_error:
  "lookup_start c name rn s = Return (Inl e, s') \<Longrightarrow> e \<noteq> PackageNotFoundException n"
  by (auto simp: lookup_start_def lookup_parsed_def lookup_fallback_def Let_def
      split: if_splits response.splits sum.splits prod.splits list.splits
      dest: map_srcinfo_error)

lemma get_src_info_error:
  "get_src_info fuel c name rn s = Some (Inl e, s') \<Longrightarrow> e \<noteq> PackageNotFoundException n"
proof (induction fuel arbitrary: name rn s s')
  case 0
  then show ?case by simp
next
  case (Suc fuel)
  from Suc.prems show ?case
  proof (cases rule: get_src_info_SucE)
    case return
    then show ?thesis by (rule lookup_start_error)
  next
    case (inner_raises b r s2 e')
    with Suc.IH show ?thesis by blast
  next
    case (inner_returns b r s2 res s3)
    then show ?thesis by simp
  qed
qed

text \<open>
  What \<^verbatim>\<open>get_required_dependencies\<close> makes of each outcome of the lookup: it raises
  \<^verbatim>\<open>PackageNotFoundException\<close>, for the name it was called with, exactly when the lookup
  returns \<^verbatim>\<open>None\<close> or an empty record; it returns the dependencies of a non-empty record;
  and an exception that leaves the lookup passes through unchanged.
\<close>

lemma get_required_dependencies_cases:
  "(get_required_dependencies fuel c name s = Some (Inl (PackageNotFoundException n), s') \<longleftrightarrow>
      n = name \<and> (\<exists>r. get_src_info fuel c name None s = Some (Inr r, s') \<and> \<not> nonempty r))
   \<and> (\<forall>r. get_src_info fuel c name None s = Some (Inr (Some r), s') \<and> r \<noteq> [] \<longrightarrow>
         get_required_dependencies fuel c name s =
           Some (Inr (extract_required_dependencies (x86_64 c) r), s'))
   \<and> (\<forall>e. get_src_info fuel c name None s = Some (Inl e, s') \<longrightarrow>
         get_required_dependencies fuel c name s = Some (Inl e, s'))"
proof -
  have forth: "n = name \<and>
      (\<exists>r. get_src_info fuel c name None s = Some (Inr r, s') \<and> \<not> nonempty r)"
    if pnf: "get_required_dependencies fuel c name s =
      Some (Inl (PackageNotFoundException n), s')"
  proof (cases "get_src_info fuel c name None s")
    case None
    with pnf show ?thesis by (simp add: get_required_dependencies_def)
  next
    case (Some x)
    obtain out s1 where x: "x = (out, s1)" by (cases x)
    show ?thesis
    proof (cases out)
      case (Inl e)
      with Some x pnf have "e = PackageNotFoundException n" and "s1 = s'"
        by (simp_all add: get_required_dependencies_def)
      with Some x Inl get_src_info_error show ?thesis by blast
    next
      case (Inr r)
      with Some x pnf show ?thesis
        by (auto simp: get_required_dependencies_def split: if_splits)
    qed
  qed
  have rev_dir: "get_required_dependencies fuel c name s =
      Some (Inl (PackageNotFoundException n), s')"
    if "n = name \<and>
      (\<exists>r. get_src_info fuel c name None s = Some (Inr r, s') \<and> \<not> nonempty r)"
    using that by (auto simp: get_required_dependencies_def)
  have found: "get_required_dependencies fuel c name s =
           Some (Inr (extract_required_dependencies (x86_64 c) r), s')"
    if "get_src_info fuel c name None s = Some (Inr (Some r), s') \<and> r \<noteq> []" for r
    using that by (simp add: get_required_dependencies_def)
  have raised: "get_required_dependencies fuel c name s = Some (Inl e, s')"
    if "get_src_info fuel c name None s = Some (Inl e, s')" for e
    using that by (simp add: get_required_dependencies_def)
  from forth rev_dir found raised show ?thesis by blast
qed

lemma extract_demo_foo_git:
  "extract_required_dependencies True
     [(''pkgbase'', Single ''foo''), (''pkgname'', Single ''foo-git''),
      (''depends'', Multi [''git''])] = {''git''}"
  by (simp add: extract_required_dependencies_def dependency_attrs_def Let_def)

text \<open>
  Claim C6. Where the lookup returns no record, \<^verbatim>\<open>get_required_dependencies\<close> raises
  \<^verbatim>\<open>PackageNotFoundException\<close>, as the claim says. But with a transport that has no
  connection no record can be resolved either, and what reaches the caller is not
  \<^verbatim>\<open>PackageNotFoundException\<close>: it is the \<^verbatim>\<open>ConnectionError\<close> of the document request, which
  \<^verbatim>\<open>get_src_info\<close> does not catch (claim C5) and \<^verbatim>\<open>get_required_dependencies\<close> lets through.
\<close>

theorem get_required_dependencies_offline_raises:
  "get_required_dependencies 1 offline_client ''foo'' init =
     Some (Inl (Transport ConnectionError),
           \<lparr>srcinfo_cache = Map.empty, sent = [URL_SRC_INFO ''foo'']\<rparr>)
   \<and> get_required_dependencies 1 demo_client ''nope'' init =
     Some (Inl (PackageNotFoundException ''nope''),
           \<lparr>srcinfo_cache = Map.empty, sent = [URL_SRC_INFO ''nope'', URL_INFO [''nope'']]\<rparr>)
   \<and> get_required_dependencies 2 demo_client ''foo-git'' init =
     Some (Inr {''git''},
       \<lparr>srcinfo_cache =
          [''foo'' \<mapsto> [(''pkgbase'', Single ''foo''), (''pkgname'', Single ''foo-git''),
                      (''depends'', Multi [''git''])],
           ''foo-git'' \<mapsto> [(''pkgbase'', Single ''foo''), (''pkgname'', Single ''foo-git''),
                      (''depends'', Multi [''git''])]],
        sent = [URL_SRC_INFO ''foo-git'', URL_INFO [''foo-git''], URL_SRC_INFO ''foo'']\<rparr>)"
proof -
  have offline: "get_src_info (Suc 0) offline_client ''foo'' None init =
      Some (Inl (Transport ConnectionError),
            \<lparr>srcinfo_cache = Map.empty, sent = [URL_SRC_INFO ''foo'']\<rparr>)"
    by (simp add: lookup_start_def offline_client_def init_def)
  have nope: "get_src_info (Suc 0) demo_client ''nope'' None init =
     Some (Inr None,
       \<lparr>srcinfo_cache = Map.empty, sent = [URL_SRC_INFO ''nope'', URL_INFO [''nope'']]\<rparr>)"
    by (simp add: init_def get_src_info_nope del: get_src_info.simps)
  have x86: "x86_64 demo_client = True" by (simp add: demo_client_def)
  show ?thesis
    by (simp add: get_required_dependencies_def numeral_2_eq_2 offline nope x86
        get_src_info_demo_foo_git extract_demo_foo_git del: get_src_info.simps)
qed

text \<open>
  Claim C5. With a transport that has no connection, \<^verbatim>\<open>get_info\<close> and \<^verbatim>\<open>download_names\<close>
  catch the \<^verbatim>\<open>ConnectionError\<close> and give an empty result, but \<^verbatim>\<open>get_src_info\<close> does not: the
  request for the document is outside any \<^verbatim>\<open>try\<close>, and the exception reaches the caller.
\<close>

theorem get_src_info_offline_raises:
  "get_src_info 1 offline_client ''foo'' None init =
     Some (Inl (Transport ConnectionError),
           \<lparr>srcinfo_cache = Map.empty, sent = [URL_SRC_INFO ''foo'']\<rparr>)
   \<and> get_info offline_client [''foo''] init =
     ([], \<lparr>srcinfo_cache = Map.empty, sent = [URL_INFO [''foo'']]\<rparr>)
   \<and> download_names offline_client init =
     (Inr None, \<lparr>srcinfo_cache = Map.empty, sent = [URL_INDEX]\<rparr>)"
  by (simp add: lookup_start_def get_info_def download_names_def offline_client_def init_def)

section \<open>Blocks, scopes and merged fields\<close>

lemma map_of_add_value:
  "map_of (add_value b k v) k' =
     (if k' = k
      then Some (case map_of b k of
                   None \<Rightarrow> if k \<in> set KNOWN_LIST_FIELDS then StrSet {v} else Str v
                 | Some (Str v0) \<Rightarrow> StrSet (insert v {v0})
                 | Some (StrSet S) \<Rightarrow> StrSet (insert v S))
      else map_of b k')"
  by (simp add: add_value_def update_conv' split: option.splits subval.splits)

lemma update_nonempty: "AList.update k v al \<noteq> []"
  by (cases al) auto

lemma add_value_nonempty: "add_value b k v \<noteq> []"
  by (simp add: add_value_def update_nonempty split: option.splits subval.splits)

lemma distinct_add_value: "distinct (map fst b) \<Longrightarrow> distinct (map fst (add_value b k v))"
  by (simp add: add_value_def distinct_update split: option.splits subval.splits)

lemma block_of_snoc:
  "block_of (ps @ [p]) = add_value (block_of ps) (strip (fst p)) (strip (snd p))"
  by (simp add: block_of_def)

lemma block_of_empty_iff: "block_of ps = [] \<longleftrightarrow> ps = []"
proof (cases ps rule: rev_cases)
  case Nil
  then show ?thesis by (simp add: block_of_def)
next
  case (snoc qs q)
  then show ?thesis by (simp add: block_of_snoc add_value_nonempty)
qed

lemma distinct_block_of: "distinct (map fst (block_of ps))"
proof (induction ps rule: rev_induct)
  case Nil
  then show ?case by (simp add: block_of_def)
next
  case (snoc q qs)
  then show ?case by (simp add: block_of_snoc distinct_add_value)
qed

lemma key_fields_not_known: "k \<in> key_fields \<Longrightarrow> k \<notin> set KNOWN_LIST_FIELDS"
  by (auto simp: key_fields_def KNOWN_LIST_FIELDS_def)

lemma block_of_seed:
  "is_boundary p \<Longrightarrow> block_of [p] = [(strip (fst p), Str (strip (snd p)))]"
  by (simp add: block_of_def add_value_def is_boundary_def key_fields_not_known)

lemma srcinfo_step_block_of:
  "srcinfo_step None (closed, block_of cs) p =
     (if is_boundary p \<and> cs \<noteq> [] then (closed @ [block_of cs], block_of [p])
      else (closed, block_of (cs @ [p])))"
  by (simp add: srcinfo_step_def Let_def block_of_empty_iff is_boundary_def [symmetric]
      block_of_seed block_of_snoc fields_allow_def)

lemma srcinfo_loop_segment:
  "(let st = foldl (srcinfo_step None) (closed, block_of cs) ps
    in if snd st \<noteq> [] then fst st @ [snd st] else fst st) =
   closed @ map block_of (spec_segment cs ps)"
proof (induction ps arbitrary: closed cs)
  case Nil
  then show ?case by (simp add: block_of_empty_iff)
next
  case (Cons p ps)
  show ?case
  proof (cases "is_boundary p \<and> cs \<noteq> []")
    case True
    then have "srcinfo_step None (closed, block_of cs) p = (closed @ [block_of cs], block_of [p])"
      and "spec_segment cs (p # ps) = cs # spec_segment [p] ps"
      by (simp_all add: srcinfo_step_block_of)
    then show ?thesis
      using Cons.IH [of "closed @ [block_of cs]" "[p]"] by simp
  next
    case False
    then have "srcinfo_step None (closed, block_of cs) p = (closed, block_of (cs @ [p]))"
      and "spec_segment cs (p # ps) = spec_segment (cs @ [p]) ps"
      by (simp_all add: srcinfo_step_block_of)
    then show ?thesis
      using Cons.IH [of closed "cs @ [p]"] by simp
  qed
qed

lemma srcinfo_blocks_segment:
  "srcinfo_blocks None ps = map block_of (spec_segment [] ps)"
proof -
  have "block_of [] = []" by (simp add: block_of_def)
  with srcinfo_loop_segment [of "[]" "[]" ps] show ?thesis
    by (simp add: srcinfo_blocks_def)
qed

lemma concat_spec_segment: "concat (spec_segment cs ps) = cs @ ps"
  by (induction ps arbitrary: cs) auto

lemma length_spec_segment:
  "length (spec_segment cs ps) =
     (if cs = [] \<and> ps = [] then 0
      else if cs = [] then Suc (length (filter is_boundary (tl ps)))
      else Suc (length (filter is_boundary ps)))"
proof (induction ps arbitrary: cs)
  case Nil
  then show ?case by simp
next
  case (Cons p ps)
  show ?case
  proof (cases "is_boundary p \<and> cs \<noteq> []")
    case True
    with Cons.IH [of "[p]"] show ?thesis by simp
  next
    case False
    with Cons.IH [of "cs @ [p]"] show ?thesis by auto
  qed
qed

lemma spec_segment_no_boundary:
  "\<forall>p \<in> set ps. \<not> is_boundary p \<Longrightarrow> cs @ ps \<noteq> [] \<Longrightarrow> spec_segment cs ps = [cs @ ps]"
  by (induction ps arbitrary: cs) auto

text \<open>In a scope, only the first pair can have a boundary key.\<close>

lemma spec_segment_scopes:
  "\<forall>p \<in> set (tl cs). \<not> is_boundary p \<Longrightarrow> sc \<in> set (spec_segment cs ps) \<Longrightarrow>
     sc \<noteq> [] \<and> (\<forall>p \<in> set (tl sc). \<not> is_boundary p)"
proof (induction ps arbitrary: cs)
  case Nil
  then show ?case by (auto split: if_splits)
next
  case (Cons p ps)
  show ?case
  proof (cases "is_boundary p \<and> cs \<noteq> []")
    case True
    with Cons.prems have "sc = cs \<or> sc \<in> set (spec_segment [p] ps)" by simp
    then show ?thesis
    proof
      assume "sc = cs"
      with True Cons.prems(1) show ?thesis by simp
    next
      assume "sc \<in> set (spec_segment [p] ps)"
      with Cons.IH [of "[p]"] show ?thesis by simp
    qed
  next
    case False
    with Cons.prems(2) have in_seg: "sc \<in> set (spec_segment (cs @ [p]) ps)" by auto
    have "\<forall>q \<in> set (tl (cs @ [p])). \<not> is_boundary q"
      using False Cons.prems(1) by (cases cs) auto
    from Cons.IH [OF this in_seg] show ?thesis .
  qed
qed

lemma received_snoc:
  "received [sc @ [p]] k =
     received [sc] k @ (if strip (fst p) = k then [strip (snd p)] else [])"
  by (simp add: received_def)

lemma block_of_field: "map_of (block_of sc) k = spec_field k (received [sc] k)"
proof (induction sc rule: rev_induct)
  case Nil
  then show ?case by (simp add: block_of_def received_def spec_field_def)
next
  case (snoc p sc)
  show ?case
  proof (cases "strip (fst p) = k")
    case False
    with snoc show ?thesis
      by (simp add: block_of_snoc map_of_add_value received_snoc)
  next
    case True
    let ?vs = "received [sc] k"
    show ?thesis
    proof (cases "?vs")
      case Nil
      with True snoc show ?thesis
        by (simp add: block_of_snoc map_of_add_value received_snoc spec_field_def)
    next
      case (Cons v0 ws)
      with True snoc show ?thesis
        by (cases ws)
          (auto simp: block_of_snoc map_of_add_value received_snoc spec_field_def)
    qed
  qed
qed

lemma received_pkgname:
  assumes "\<forall>p \<in> set (tl sc). \<not> is_boundary p"
  shows "length (received [sc] ''pkgname'') \<le> 1"
proof (cases sc)
  case Nil
  then show ?thesis by (simp add: received_def)
next
  case (Cons p rest)
  with assms have "\<forall>q \<in> set rest. strip (fst q) \<noteq> ''pkgname''"
    by (auto simp: is_boundary_def key_fields_def)
  then have "filter (\<lambda>q. strip (fst q) = ''pkgname'') rest = []"
    by (simp add: filter_empty_conv)
  with Cons show ?thesis by (simp add: received_def)
qed

lemma scope_scalar_pkgname:
  assumes "\<forall>p \<in> set (tl sc). \<not> is_boundary p"
  shows "scalar_pkgname (block_of sc)"
proof -
  have "''pkgname'' \<notin> set KNOWN_LIST_FIELDS" by (simp add: KNOWN_LIST_FIELDS_def)
  with received_pkgname [OF assms] show ?thesis
    by (auto simp: scalar_pkgname_def block_of_field spec_field_def split: option.splits)
qed

lemma srcinfo_blocks_scalar_pkgname:
  "\<forall>b \<in> set (srcinfo_blocks None ps). scalar_pkgname b"
proof
  fix b assume "b \<in> set (srcinfo_blocks None ps)"
  then obtain sc where sc: "sc \<in> set (spec_segment [] ps)" and b: "b = block_of sc"
    by (auto simp: srcinfo_blocks_segment)
  from spec_segment_scopes [OF _ sc] have "\<forall>p \<in> set (tl sc). \<not> is_boundary p" by simp
  with b show "scalar_pkgname b" by (simp add: scope_scalar_pkgname)
qed

lemma srcinfo_blocks_pkgnames: "\<exists>names. pkgnames (srcinfo_blocks None ps) = Inr names"
  by (rule pkgnames_total) (rule srcinfo_blocks_scalar_pkgname)

lemma map_srcinfo_total: "\<exists>r. map_srcinfo enum doc tgt None = Inr r"
  using srcinfo_blocks_pkgnames [of "findall doc"]
  by (auto simp: map_srcinfo_def merge_blocks_def)

text \<open>The value of a key after one more block has been merged.\<close>

lemma map_of_merge_value:
  "map_of (merge_value info k v) k' =
     (if k' = k
      then (case map_of info k of
              None \<Rightarrow> Some v
            | Some cur \<Rightarrow> Some (StrSet (as_set cur \<union> as_set v)))
      else map_of info k')"
  by (simp add: merge_value_def update_conv' split: option.splits)

lemma map_of_merge_subinfo:
  "distinct (map fst b) \<Longrightarrow>
   map_of (merge_subinfo None info b) k =
     (case map_of b k of
        None \<Rightarrow> map_of info k
      | Some v \<Rightarrow>
          (case map_of info k of
             None \<Rightarrow> Some v
           | Some cur \<Rightarrow> Some (StrSet (as_set cur \<union> as_set v))))"
proof (induction b arbitrary: info)
  case Nil
  then show ?case by (simp add: merge_subinfo_def)
next
  case (Cons kv b)
  obtain k0 v0 where kv: "kv = (k0, v0)" by (cases kv)
  from Cons.prems kv have notin: "map_of b k0 = None" and dist: "distinct (map fst b)"
    by (auto simp: map_of_eq_None_iff)
  have unfold: "merge_subinfo None info (kv # b) =
      merge_subinfo None (merge_value info k0 v0) b"
    by (simp add: merge_subinfo_def fields_allow_def kv)
  show ?case
    unfolding unfold Cons.IH [OF dist]
    using notin by (auto simp: kv map_of_merge_value split: option.splits)
qed

lemma spec_field_as_set: "spec_field k vs = Some v \<Longrightarrow> as_set v = set vs"
proof (cases vs)
  case Nil
  assume "spec_field k vs = Some v"
  with Nil show ?thesis by (simp add: spec_field_def)
next
  case (Cons a ws)
  assume "spec_field k vs = Some v"
  with Cons show ?thesis
    by (cases ws) (auto simp: spec_field_def split: if_splits)
qed

lemma spec_field_append:
  "(case spec_field k ws of
      None \<Rightarrow> spec_field k vs
    | Some v \<Rightarrow>
        (case spec_field k vs of
           None \<Rightarrow> Some v
         | Some cur \<Rightarrow> Some (StrSet (as_set cur \<union> as_set v)))) =
   spec_field k (vs @ ws)"
proof (cases "spec_field k ws")
  case None
  then have "ws = []" by (simp add: spec_field_def split: if_splits)
  with None show ?thesis by simp
next
  case w: (Some v)
  then have ws: "ws \<noteq> []" by (auto simp: spec_field_def)
  show ?thesis
  proof (cases "spec_field k vs")
    case None
    then have "vs = []" by (simp add: spec_field_def split: if_splits)
    with None w show ?thesis by simp
  next
    case (Some cur)
    then have vs: "vs \<noteq> []" by (auto simp: spec_field_def)
    from vs ws have "2 \<le> length (vs @ ws)"
      by (cases vs; cases ws) auto
    with vs have "spec_field k (vs @ ws) = Some (StrSet (set vs \<union> set ws))"
      by (simp add: spec_field_def)
    with w Some spec_field_as_set [OF w] spec_field_as_set [OF Some] show ?thesis by simp
  qed
qed

lemma received_append: "received (scs @ [sc]) k = received scs k @ received [sc] k"
  by (simp add: received_def)

lemma merge_loop_snoc:
  "merge_loop (bs @ [b]) None flds = merge_subinfo flds (merge_loop bs None flds) b"
  by (simp add: merge_loop_def)

lemma merge_loop_field:
  "map_of (merge_loop (map block_of scs) None None) k = spec_field k (received scs k)"
proof (induction scs rule: rev_induct)
  case Nil
  then show ?case by (simp add: merge_loop_def received_def spec_field_def)
next
  case (snoc sc scs)
  have "map_of (merge_loop (map block_of (scs @ [sc])) None None) k =
      (case spec_field k (received [sc] k) of
         None \<Rightarrow> spec_field k (received scs k)
       | Some v \<Rightarrow>
          (case spec_field k (received scs k) of
             None \<Rightarrow> Some v
           | Some cur \<Rightarrow> Some (StrSet (as_set cur \<union> as_set v))))"
    by (simp add: merge_loop_snoc map_of_merge_subinfo distinct_block_of block_of_field snoc
        cong: option.case_cong)
  also have "\<dots> = spec_field k (received (scs @ [sc]) k)"
    unfolding received_append by (rule spec_field_append)
  finally show ?case .
qed

lemma map_of_to_val:
  "map_of (map (\<lambda>kv. (fst kv, to_val enum (snd kv))) al) k = map_option (to_val enum) (map_of al k)"
  by (induction al) auto

lemma merge_subinfos_field:
  "map_of (merge_subinfos enum (map block_of scs) tgt None) k =
     map_option (to_val enum)
       (spec_field k (received (filter (\<lambda>sc. selected tgt (block_of sc)) scs) k))"
proof -
  have "filter (selected tgt) (map block_of scs) =
        map block_of (filter (\<lambda>sc. selected tgt (block_of sc)) scs)"
    by (simp add: filter_map comp_def)
  then show ?thesis
    by (simp add: merge_subinfos_def map_of_to_val merge_loop_filter [of _ tgt] merge_loop_field)
qed

section \<open>Segmentation and the target of the merge\<close>

text \<open>
  Claim C7, as amended. With no field filter, the loop closes the current block and opens
  a new one seeded with the pair exactly when the pair has a boundary key and the current
  block is not empty; otherwise it inserts the pair into the current block. So the
  blocks are those of the specification's segmentation, every pair lies in one scope and
  the scopes in order make up the document; a boundary key in the first pair never
  splits while every later boundary key does, so a non-empty document has one block more
  than it has boundary keys after its first pair; a non-empty document with no boundary
  key gives one block, holding all its pairs in order; the empty document gives no
  block.
\<close>

theorem srcinfo_blocks_segmentation:
  "srcinfo_step None (closed, current) p =
     (if is_boundary p \<and> current \<noteq> []
      then (closed @ [current], [(strip (fst p), Str (strip (snd p)))])
      else (closed, add_value current (strip (fst p)) (strip (snd p))))
   \<and> srcinfo_blocks None ps = map block_of (spec_segment [] ps)
   \<and> concat (spec_segment [] ps) = ps
   \<and> length (srcinfo_blocks None ps) =
       (if ps = [] then 0 else Suc (length (filter is_boundary (tl ps))))
   \<and> ((\<forall>q \<in> set ps. \<not> is_boundary q) \<and> ps \<noteq> [] \<longrightarrow> srcinfo_blocks None ps = [block_of ps])
   \<and> srcinfo_blocks None [] = []"
proof (intro conjI)
  show "srcinfo_step None (closed, current) p =
     (if is_boundary p \<and> current \<noteq> []
      then (closed @ [current], [(strip (fst p), Str (strip (snd p)))])
      else (closed, add_value current (strip (fst p)) (strip (snd p))))"
    by (auto simp: srcinfo_step_def Let_def is_boundary_def fields_allow_def)
  show "srcinfo_blocks None ps = map block_of (spec_segment [] ps)"
    by (rule srcinfo_blocks_segment)
  show "concat (spec_segment [] ps) = ps"
    by (simp add: concat_spec_segment)
  show "length (srcinfo_blocks None ps) =
       (if ps = [] then 0 else Suc (length (filter is_boundary (tl ps))))"
    by (simp add: srcinfo_blocks_segment length_spec_segment)
  show "(\<forall>q \<in> set ps. \<not> is_boundary q) \<and> ps \<noteq> [] \<longrightarrow> srcinfo_blocks None ps = [block_of ps]"
    using spec_segment_no_boundary [of ps "[]"] by (simp add: srcinfo_blocks_segment)
  show "srcinfo_blocks None [] = []"
    by (simp add: srcinfo_blocks_def)
qed

lemmas strip_defs = strip_def is_space_def

theorem srcinfo_blocks_segmentation_witness:
  "srcinfo_blocks None [(''url'', ''u''), (''arch'', ''any''), (''arch'', ''x86_64'')] =
     [[(''url'', Str ''u''), (''arch'', StrSet {''x86_64'', ''any''})]]
   \<and> length (srcinfo_blocks None
        [(''pkgbase'', ''b''), (''url'', ''u''), (''pkgname'', ''a''), (''pkgname'', ''c'')]) = 3"
proof -
  let ?ps = "[(''url'', ''u''), (''arch'', ''any''), (''arch'', ''x86_64'')]"
  let ?qs = "[(''pkgbase'', ''b''), (''url'', ''u''), (''pkgname'', ''a''), (''pkgname'', ''c'')]"
  have nb: "(\<forall>q \<in> set ?ps. \<not> is_boundary q) \<and> ?ps \<noteq> []"
    by (simp add: is_boundary_def key_fields_def strip_defs)
  have blk: "block_of ?ps = [(''url'', Str ''u''), (''arch'', StrSet {''x86_64'', ''any''})]"
    by (simp add: block_of_def add_value_def strip_defs KNOWN_LIST_FIELDS_def)
  have cnt: "length (filter is_boundary (tl ?qs)) = 2"
    by (simp add: is_boundary_def key_fields_def strip_defs)
  note one = srcinfo_blocks_segmentation [of "[]" "[]" "(''url'', ''u'')" ?ps,
      THEN conjunct2, THEN conjunct2, THEN conjunct2, THEN conjunct2, THEN conjunct1]
  note len = srcinfo_blocks_segmentation [of "[]" "[]" "(''url'', ''u'')" ?qs,
      THEN conjunct2, THEN conjunct2, THEN conjunct2, THEN conjunct1]
  from one nb have "srcinfo_blocks None ?ps = [block_of ?ps]" by (rule mp)
  then have "srcinfo_blocks None ?ps =
      [[(''url'', Str ''u''), (''arch'', StrSet {''x86_64'', ''any''})]]"
    by (simp only: blk)
  moreover have "length (srcinfo_blocks None ?qs) = Suc (length (filter is_boundary (tl ?qs)))"
    using len by (simp only: list.distinct if_False)
  then have "length (srcinfo_blocks None ?qs) = 3"
    by (simp only: cnt)
  ultimately show ?thesis by simp
qed

text \<open>
  Claim C7 as stated fails where the first boundary key of a document is not its first
  pair: the current block is not empty then, and the key splits.
\<close>

theorem first_boundary_key_counterexample:
  "srcinfo_blocks None [(''pkgdesc'', ''x''), (''pkgname'', ''a'')] =
     [[(''pkgdesc'', Str ''x'')], [(''pkgname'', Str ''a'')]]"
  by (simp add: srcinfo_blocks_def srcinfo_step_def strip_defs key_fields_def fields_allow_def
      add_value_def KNOWN_LIST_FIELDS_def Let_def)

text \<open>
  Claim C1. For every block list whose \<^verbatim>\<open>pkgname\<close> fields are strings and every non-empty
  target name, the merge that \<^verbatim>\<open>map_srcinfo\<close> performs folds exactly the blocks whose
  \<^verbatim>\<open>pkgname\<close> is the target or that have no \<^verbatim>\<open>pkgname\<close>, when some block has the target as
  its \<^verbatim>\<open>pkgname\<close>; when no block has, it folds all blocks, as with no target. The filter
  itself is that of \<^verbatim>\<open>merge_subinfos\<close>; the case of a target that no block has is decided
  in \<^verbatim>\<open>map_srcinfo\<close>, which then passes no target on.
\<close>

theorem merge_blocks_selects_target:
  assumes "pkgnames bs = Inr names" and "t \<noteq> []"
  shows "merge_subinfos enum bs (Some t) flds =
           merge_subinfos enum (filter (\<lambda>b. map_of b ''pkgname'' \<in> {None, Some (Str t)}) bs)
             None flds
   \<and> (t \<in> names \<longrightarrow>
        merge_blocks enum bs (Some t) flds =
          Inr (merge_subinfos enum
                 (filter (\<lambda>b. map_of b ''pkgname'' \<in> {None, Some (Str t)}) bs) None flds))
   \<and> (t \<notin> names \<longrightarrow>
        merge_blocks enum bs (Some t) flds = Inr (merge_subinfos enum bs None flds))
   \<and> (t \<in> names \<longleftrightarrow> (\<exists>b \<in> set bs. map_of b ''pkgname'' = Some (Str t)))"
proof -
  have sel: "filter (selected (Some t)) bs =
             filter (\<lambda>b. map_of b ''pkgname'' \<in> {None, Some (Str t)}) bs"
    using assms(2) by (intro filter_cong refl) (simp add: selected_Some)
  have "merge_subinfos enum bs (Some t) flds =
           merge_subinfos enum (filter (\<lambda>b. map_of b ''pkgname'' \<in> {None, Some (Str t)}) bs)
             None flds"
    by (subst merge_subinfos_filter) (simp only: sel)
  moreover have "t \<in> names \<longleftrightarrow> (\<exists>b \<in> set bs. map_of b ''pkgname'' = Some (Str t))"
    using pkgnames_Inr [OF assms(1)] by auto
  ultimately show ?thesis
    using merge_blocks_target [OF assms, of enum flds] by simp
qed

theorem merge_blocks_selects_target_witness:
  "merge_blocks sorted_list_of_set
     [[(''pkgbase'', Str ''foo'')],
      [(''pkgname'', Str ''foo''), (''depends'', StrSet {''glibc''})],
      [(''pkgname'', Str ''foo-git''), (''depends'', StrSet {''git''})]]
     (Some ''foo-git'') None =
     Inr [(''pkgbase'', Single ''foo''), (''pkgname'', Single ''foo-git''),
          (''depends'', Multi [''git''])]
   \<and> merge_blocks sorted_list_of_set
     [[(''pkgbase'', Str ''foo'')],
      [(''pkgname'', Str ''foo''), (''depends'', StrSet {''glibc''})],
      [(''pkgname'', Str ''foo-git''), (''depends'', StrSet {''git''})]]
     (Some ''bar'') None =
     Inr [(''pkgbase'', Single ''foo''),
          (''pkgname'', Multi (sorted_list_of_set {''foo'', ''foo-git''})),
          (''depends'', Multi (sorted_list_of_set {''glibc'', ''git''}))]"
proof -
  let ?bs = "[[(''pkgbase'', Str ''foo'')],
      [(''pkgname'', Str ''foo''), (''depends'', StrSet {''glibc''})],
      [(''pkgname'', Str ''foo-git''), (''depends'', StrSet {''git''})]]"
  have names: "pkgnames ?bs = Inr {''foo'', ''foo-git''}" by simp
  have t: "''foo-git'' \<noteq> []" and u: "''bar'' \<noteq> []" by simp_all
  have merge_git: "merge_subinfos sorted_list_of_set
      (filter (\<lambda>b. map_of b ''pkgname'' \<in> {None, Some (Str ''foo-git'')}) ?bs) None None =
     [(''pkgbase'', Single ''foo''), (''pkgname'', Single ''foo-git''),
          (''depends'', Multi [''git''])]"
    by (simp add: merge_subinfos_def merge_loop_def merge_subinfo_def merge_value_def
        fields_allow_def)
  have merge_all: "merge_subinfos sorted_list_of_set ?bs None None =
     [(''pkgbase'', Single ''foo''),
          (''pkgname'', Multi (sorted_list_of_set {''foo'', ''foo-git''})),
          (''depends'', Multi (sorted_list_of_set {''glibc'', ''git''}))]"
    by (simp add: merge_subinfos_def merge_loop_def merge_subinfo_def merge_value_def
        fields_allow_def)
  from merge_blocks_selects_target [OF names t, of sorted_list_of_set None]
    merge_blocks_selects_target [OF names u, of sorted_list_of_set None] merge_git merge_all
  show ?thesis by simp
qed

section \<open>The fallback to the base\<close>

lemma lookup_start_fallback:
  assumes "\<not> nonempty (srcinfo_cache s name)"
    and "no_content (http_get c (sent s) (URL_SRC_INFO name))"
    and "http_get_json c (sent s @ [URL_SRC_INFO name]) (URL_INFO [name]) =
           JsonObject (Some (\<lparr>Name = Some n, PackageBase = Some b\<rparr> # others))"
    and "n \<noteq> []" "b \<noteq> []" "n \<noteq> b"
  shows "lookup_start c name rn s =
           Recurse b (Some n) (s\<lparr>sent := sent s @ [URL_SRC_INFO name, URL_INFO [name]]\<rparr>)"
  using assms
  by (cases "http_get c (sent s) (URL_SRC_INFO name)")
     (auto simp: lookup_start_def lookup_fallback_def get_info_def Let_def)

lemma lookup_start_parsed:
  assumes "\<not> nonempty (srcinfo_cache s name)"
    and "http_get c (sent s) (URL_SRC_INFO name) = Response True doc" "doc \<noteq> []"
    and "map_srcinfo (set_order c) doc (if truthy rn then rn else Some name) None = Inr r"
  shows "lookup_start c name rn s =
           Return (Inr (Some r),
                   cache_store name (Some r) (s\<lparr>sent := sent s @ [URL_SRC_INFO name]\<rparr>))"
  using assms by (simp add: lookup_start_def lookup_parsed_def Let_def)

text \<open>
  Claim C3, as amended. When the name is not cached, its document has no content, and the
  first entry of the info endpoint has a name and a base that differ, the lookup calls
  itself for the base with that name as \<^verbatim>\<open>real_name\<close>. When the base is not cached and has
  a document, this is the only recursive call: the requests are the document of the
  name, its info, and the document of the base; the result is the record of the base's
  document for the target \<^verbatim>\<open>real_name\<close>, which is the merge of the blocks of that
  sub-package and of the blocks with no \<^verbatim>\<open>pkgname\<close> when the document declares the
  sub-package; and the record, if not empty, is cached under both names.
\<close>

theorem get_src_info_fallback_to_base:
  assumes miss: "\<not> nonempty (srcinfo_cache s name)"
    and nodoc: "no_content (http_get c (sent s) (URL_SRC_INFO name))"
    and entry: "http_get_json c (sent s @ [URL_SRC_INFO name]) (URL_INFO [name]) =
           JsonObject (Some (\<lparr>Name = Some n, PackageBase = Some b\<rparr> # others))"
    and differ: "n \<noteq> []" "b \<noteq> []" "n \<noteq> b"
    and base_miss: "\<not> nonempty (srcinfo_cache s b)"
    and base_doc: "http_get c (sent s @ [URL_SRC_INFO name, URL_INFO [name]]) (URL_SRC_INFO b) =
           Response True doc" "doc \<noteq> []"
  shows "\<exists>r. map_srcinfo (set_order c) doc (Some n) None = Inr r
     \<and> get_src_info (Suc (Suc fuel)) c name rn s =
         Some (Inr (Some r),
               cache_store name (Some r) (cache_store b (Some r)
                 (s\<lparr>sent := sent s @ [URL_SRC_INFO name, URL_INFO [name], URL_SRC_INFO b]\<rparr>)))
     \<and> (\<forall>names. pkgnames (srcinfo_blocks None (findall doc)) = Inr names \<and> n \<in> names \<longrightarrow>
           r = merge_subinfos (set_order c)
                 (filter (\<lambda>blk. map_of blk ''pkgname'' \<in> {None, Some (Str n)})
                    (srcinfo_blocks None (findall doc)))
                 None None)"
proof -
  let ?s2 = "s\<lparr>sent := sent s @ [URL_SRC_INFO name, URL_INFO [name]]\<rparr>"
  obtain r where r: "map_srcinfo (set_order c) doc (Some n) None = Inr r"
    using map_srcinfo_total by blast
  have outer: "lookup_start c name rn s = Recurse b (Some n) ?s2"
    using miss nodoc entry differ by (rule lookup_start_fallback)
  have "lookup_start c b (Some n) ?s2 =
      Return (Inr (Some r),
              cache_store b (Some r) (?s2\<lparr>sent := sent ?s2 @ [URL_SRC_INFO b]\<rparr>))"
    using base_miss base_doc r differ(1)
    by (intro lookup_start_parsed) simp_all
  then have inner: "get_src_info (Suc fuel) c b (Some n) ?s2 =
      Some (Inr (Some r),
            cache_store b (Some r)
              (s\<lparr>sent := sent s @ [URL_SRC_INFO name, URL_INFO [name], URL_SRC_INFO b]\<rparr>))"
    by simp
  have run: "get_src_info (Suc (Suc fuel)) c name rn s =
         Some (Inr (Some r),
               cache_store name (Some r) (cache_store b (Some r)
                 (s\<lparr>sent := sent s @ [URL_SRC_INFO name, URL_INFO [name], URL_SRC_INFO b]\<rparr>)))"
    unfolding get_src_info.simps(2) [of "Suc fuel"] outer using inner
    by (simp del: get_src_info.simps)
  have sub: "r = merge_subinfos (set_order c)
                 (filter (\<lambda>blk. map_of blk ''pkgname'' \<in> {None, Some (Str n)})
                    (srcinfo_blocks None (findall doc)))
                 None None"
    if "pkgnames (srcinfo_blocks None (findall doc)) = Inr names \<and> n \<in> names" for names
    using that r merge_blocks_target [of "srcinfo_blocks None (findall doc)" names n
        "set_order c" None] differ(1)
    by (simp add: map_srcinfo_def)
  from r run sub show ?thesis by blast
qed

theorem get_src_info_fallback_to_base_witness:
  "get_src_info 2 demo_client ''foo-git'' None init =
     Some (Inr (Some [(''pkgbase'', Single ''foo''), (''pkgname'', Single ''foo-git''),
                      (''depends'', Multi [''git''])]),
       \<lparr>srcinfo_cache =
          [''foo'' \<mapsto> [(''pkgbase'', Single ''foo''), (''pkgname'', Single ''foo-git''),
                      (''depends'', Multi [''git''])],
           ''foo-git'' \<mapsto> [(''pkgbase'', Single ''foo''), (''pkgname'', Single ''foo-git''),
                      (''depends'', Multi [''git''])]],
        sent = [URL_SRC_INFO ''foo-git'', URL_INFO [''foo-git''], URL_SRC_INFO ''foo'']\<rparr>)"
proof -
  let ?R = "[(''pkgbase'', Single ''foo''), (''pkgname'', Single ''foo-git''),
             (''depends'', Multi [''git''])]"
  have miss: "\<not> nonempty (srcinfo_cache init ''foo-git'')"
    and base_miss: "\<not> nonempty (srcinfo_cache init ''foo'')"
    by (simp_all add: init_def)
  have nodoc: "no_content (http_get demo_client (sent init) (URL_SRC_INFO ''foo-git''))"
    by (simp add: demo_client_def)
  have entry: "http_get_json demo_client (sent init @ [URL_SRC_INFO ''foo-git''])
        (URL_INFO [''foo-git'']) =
      JsonObject (Some (\<lparr>Name = Some ''foo-git'', PackageBase = Some ''foo''\<rparr> # []))"
    by (simp add: demo_client_def)
  have differ: "''foo-git'' \<noteq> []" "''foo'' \<noteq> []" "''foo-git'' \<noteq> ''foo''"
    by simp_all
  have base_doc: "http_get demo_client
        (sent init @ [URL_SRC_INFO ''foo-git'', URL_INFO [''foo-git'']]) (URL_SRC_INFO ''foo'') =
      Response True demo_doc"
    by (simp add: demo_client_def)
  have order: "set_order demo_client = sorted_list_of_set" by (simp add: demo_client_def)
  from get_src_info_fallback_to_base
         [OF miss nodoc entry differ base_miss base_doc demo_doc_nonempty, of 0 None]
  obtain r where
    r: "map_srcinfo (set_order demo_client) demo_doc (Some ''foo-git'') None = Inr r"
    and run: "get_src_info (Suc (Suc 0)) demo_client ''foo-git'' None init =
         Some (Inr (Some r),
               cache_store ''foo-git'' (Some r) (cache_store ''foo'' (Some r)
                 (init\<lparr>sent := sent init @ [URL_SRC_INFO ''foo-git'', URL_INFO [''foo-git''],
                                            URL_SRC_INFO ''foo'']\<rparr>)))"
    by (elim exE conjE)
  from r have "r = ?R" by (simp only: order map_srcinfo_demo_foo_git sum.inject)
  with run show ?thesis
    by (simp add: numeral_2_eq_2 cache_store_def init_def del: get_src_info.simps)
qed

text \<open>
  Claim C3 as stated, with its bound of one level, fails on a chain of two bases: the
  lookup of \<^verbatim>\<open>a\<close> calls itself for \<^verbatim>\<open>b\<close>, and that call calls itself for \<^verbatim>\<open>c\<close>.
\<close>

theorem get_src_info_two_levels_counterexample:
  "get_src_info 3 chain_client ''a'' None init =
     Some (Inr (Some [(''pkgname'', Single ''c'')]),
       \<lparr>srcinfo_cache =
          [''c'' \<mapsto> [(''pkgname'', Single ''c'')],
           ''b'' \<mapsto> [(''pkgname'', Single ''c'')],
           ''a'' \<mapsto> [(''pkgname'', Single ''c'')]],
        sent = [URL_SRC_INFO ''a'', URL_INFO [''a''], URL_SRC_INFO ''b'', URL_INFO [''b''],
                URL_SRC_INFO ''c'']\<rparr>)"
proof -
  have doc: "map_srcinfo sorted_list_of_set ''pkgname = c\<newline>'' (Some ''b'') None =
      Inr [(''pkgname'', Single ''c'')]"
    by (simp add: map_srcinfo_def match_at_def is_word_def in_range_def is_space_def not_newline_def
        srcinfo_blocks_def srcinfo_step_def strip_def key_fields_def
        fields_allow_def add_value_def KNOWN_LIST_FIELDS_def Let_def
        merge_blocks_def merge_pkgname_def merge_subinfos_def merge_loop_def
        merge_subinfo_def merge_value_def selected_def)
  show ?thesis
    by (simp add: numeral_3_eq_3 lookup_start_def lookup_parsed_def lookup_fallback_def
        get_info_def cache_store_def init_def Let_def chain_client_def doc)
qed

section \<open>The tokenizer\<close>

lemma space_not_word: "is_space c \<Longrightarrow> \<not> is_word c"
  by (auto simp: is_space_def is_word_def in_range_def)

lemma eq_not_space: "\<not> is_space CHR ''=''" "\<not> is_word CHR ''=''"
  by (simp_all add: is_space_def is_word_def in_range_def)

lemma newline_space: "is_space (CHR 0x0A)" "\<not> not_newline (CHR 0x0A)"
  by (simp_all add: is_space_def not_newline_def)

lemma takeWhile_run:
  "list_all P xs \<Longrightarrow> ys = [] \<or> \<not> P (hd ys) \<Longrightarrow> takeWhile P (xs @ ys) = xs"
  by (cases ys) (auto simp: list_all_iff)

lemma dropWhile_run:
  "list_all P xs \<Longrightarrow> ys = [] \<or> \<not> P (hd ys) \<Longrightarrow> dropWhile P (xs @ ys) = ys"
  by (cases ys) (auto simp: list_all_iff)

lemma match_value_run:
  assumes "g \<noteq> []" "v \<noteq> []" "list_all not_newline v"
  shows "match_value (length g) (g @ v @ CHR 0x0A # rest) = Some (v, rest)"
proof -
  from assms(1) obtain k where k: "length g = Suc k" by (cases g) auto
  have tw: "takeWhile not_newline (v @ CHR 0x0A # rest) = v"
    and dw: "dropWhile not_newline (v @ CHR 0x0A # rest) = CHR 0x0A # rest"
    using assms(3) by (simp_all add: takeWhile_run dropWhile_run newline_space)
  have "drop (Suc k) (g @ v @ CHR 0x0A # rest) = v @ CHR 0x0A # rest"
    using k by (metis append_eq_conv_conj)
  then show ?thesis
    unfolding k using tw dw assms(2) by (simp add: Let_def)
qed

lemma match_at_render:
  assumes "well_formed l"
  shows "match_at (render l @ rest) = Some ((line_key l, line_text l), rest)"
proof -
  let ?k = "line_key l" and ?g1 = "gap_before l" and ?g2 = "gap_after l" and ?v = "line_text l"
  let ?r3 = "?g2 @ ?v @ CHR 0x0A # rest"
  let ?r2 = "CHR ''='' # ?r3"
  let ?r1 = "?g1 @ ?r2"
  from assms have k: "?k \<noteq> []" "list_all is_word ?k"
    and g1: "?g1 \<noteq> []" "list_all is_space ?g1"
    and g2: "?g2 \<noteq> []" "list_all is_space ?g2"
    and v: "?v \<noteq> []" "\<not> is_space (hd ?v)" "list_all not_newline ?v"
    by (simp_all add: well_formed_def)
  have t: "render l @ rest = ?k @ ?r1" by (simp add: render_def)
  from g1 have "\<not> is_word (hd ?r1)"
    by (cases ?g1) (auto simp: space_not_word)
  with k have w: "takeWhile is_word (?k @ ?r1) = ?k" "dropWhile is_word (?k @ ?r1) = ?r1"
    by (simp_all add: takeWhile_run dropWhile_run)
  from g1 have s1: "takeWhile is_space ?r1 = ?g1" "dropWhile is_space ?r1 = ?r2"
    by (simp_all add: takeWhile_run dropWhile_run eq_not_space)
  from v have "\<not> is_space (hd (?v @ CHR 0x0A # rest))" by (cases ?v) auto
  with g2 have s2: "takeWhile is_space ?r3 = ?g2"
    by (simp add: takeWhile_run)
  have mv: "match_value (length ?g2) ?r3 = Some (?v, rest)"
    using g2(1) v(1) v(3) by (rule match_value_run)
  show ?thesis
    unfolding t match_at_def w s1 Let_def using k(1) g1(1) by (simp add: s2 mv)
qed

lemma render_nonempty: "render l @ rest \<noteq> []"
  by (simp add: render_def)

lemma findall_render:
  assumes "well_formed l"
  shows "findall (render l @ rest) = (line_key l, line_text l) # findall rest"
proof -
  obtain c cs where cs: "render l @ rest = c # cs"
    using render_nonempty [of l rest] by (cases "render l @ rest") auto
  have "match_at (c # cs) = Some ((line_key l, line_text l), rest)"
    using match_at_render [OF assms, of rest] by (simp only: cs)
  then have "findall (c # cs) = (line_key l, line_text l) # findall rest"
    by simp
  then show ?thesis by (simp only: cs)
qed

lemma match_value_Some:
  assumes "match_value k r3 = Some (v, rest)" and "k \<le> length (takeWhile is_space r3)"
  shows "\<exists>g. g \<noteq> [] \<and> list_all is_space g \<and> r3 = g @ v @ CHR 0x0A # rest \<and>
             v \<noteq> [] \<and> list_all not_newline v"
  using assms
proof (induction k)
  case 0
  then show ?case by simp
next
  case (Suc k)
  let ?r = "drop (Suc k) r3"
  show ?case
  proof (cases "\<exists>nl after. dropWhile not_newline ?r = nl # after \<and> takeWhile not_newline ?r \<noteq> []")
    case False
    with Suc.prems have "match_value k r3 = Some (v, rest)"
      by (auto simp: Let_def split: list.splits if_splits)
    with Suc.IH Suc.prems(2) show ?thesis by simp
  next
    case True
    then obtain nl after where dw: "dropWhile not_newline ?r = nl # after"
      and tw: "takeWhile not_newline ?r \<noteq> []" by blast
    with Suc.prems(1) have v: "v = takeWhile not_newline ?r" and rest: "rest = after"
      by (simp_all add: Let_def)
    have "\<not> not_newline (hd (dropWhile not_newline ?r))"
      using dw by (metis hd_dropWhile list.distinct(1))
    with dw have nl: "nl = CHR 0x0A" by (simp add: not_newline_def)
    have "?r = takeWhile not_newline ?r @ dropWhile not_newline ?r" by simp
    with v dw nl rest have r: "?r = v @ CHR 0x0A # rest" by simp
    let ?g = "take (Suc k) r3"
    have "?g = take (Suc k) (takeWhile is_space r3)"
      using Suc.prems(2)
      by (metis append_eq_conv_conj length_take min.absorb2 take_append takeWhile_dropWhile_id
          take_all_iff order_refl take_take)
    then have "set ?g \<subseteq> set (takeWhile is_space r3)"
      by (metis set_take_subset)
    then have sp: "list_all is_space ?g"
      by (auto simp: list_all_iff dest: set_takeWhileD)
    have ne: "?g \<noteq> []" using Suc.prems(2) by (cases r3) auto
    have "r3 = ?g @ ?r" by simp
    with r have "r3 = ?g @ v @ CHR 0x0A # rest" by simp
    moreover have "list_all not_newline v"
      unfolding v by (auto simp: list_all_iff dest: set_takeWhileD)
    ultimately show ?thesis using ne sp tw v by blast
  qed
qed

lemma match_at_Some:
  assumes "match_at t = Some ((k, v), rest)"
  shows "\<exists>g1 g2. t = k @ g1 @ ''='' @ g2 @ v @ CHR 0x0A # rest \<and>
           k \<noteq> [] \<and> list_all is_word k \<and> g1 \<noteq> [] \<and> list_all is_space g1 \<and>
           g2 \<noteq> [] \<and> list_all is_space g2 \<and> v \<noteq> [] \<and> list_all not_newline v"
proof -
  let ?r1 = "dropWhile is_word t"
  from assms obtain r3 where
    k: "k = takeWhile is_word t" "k \<noteq> []" and
    g1: "takeWhile is_space ?r1 \<noteq> []" and
    r2: "dropWhile is_space ?r1 = CHR ''='' # r3" and
    mv: "match_value (length (takeWhile is_space r3)) r3 = Some (v, rest)"
    by (auto simp: match_at_def Let_def split: if_splits list.splits option.splits)
  from match_value_Some [OF mv] obtain g2 where
    g2: "g2 \<noteq> []" "list_all is_space g2" "r3 = g2 @ v @ CHR 0x0A # rest"
      "v \<noteq> []" "list_all not_newline v"
    by auto
  have "t = k @ ?r1" by (simp add: k)
  also have "?r1 = takeWhile is_space ?r1 @ dropWhile is_space ?r1" by simp
  finally have "t = k @ takeWhile is_space ?r1 @ ''='' @ g2 @ v @ CHR 0x0A # rest"
    by (simp add: r2 g2(3))
  moreover have "list_all is_word k" "list_all is_space (takeWhile is_space ?r1)"
    by (auto simp: k list_all_iff dest: set_takeWhileD)
  ultimately show ?thesis using k(2) g1 g2 by blast
qed

lemma findall_sound:
  "(k, v) \<in> set (findall t) \<Longrightarrow>
     \<exists>pre g1 g2 post. t = pre @ k @ g1 @ ''='' @ g2 @ v @ CHR 0x0A # post \<and>
        k \<noteq> [] \<and> list_all is_word k \<and> g1 \<noteq> [] \<and> list_all is_space g1 \<and>
        g2 \<noteq> [] \<and> list_all is_space g2 \<and> v \<noteq> [] \<and> list_all not_newline v"
proof (induction t rule: findall.induct)
  case 1
  then show ?case by simp
next
  case (2 c cs)
  show ?case
  proof (cases "match_at (c # cs)")
    case None
    with "2.prems" have "(k, v) \<in> set (findall cs)" by simp
    from "2.IH"(1) [OF None this] obtain pre g1 g2 post where
      "cs = pre @ k @ g1 @ ''='' @ g2 @ v @ CHR 0x0A # post \<and>
        k \<noteq> [] \<and> list_all is_word k \<and> g1 \<noteq> [] \<and> list_all is_space g1 \<and>
        g2 \<noteq> [] \<and> list_all is_space g2 \<and> v \<noteq> [] \<and> list_all not_newline v"
      by blast
    then have "c # cs = (c # pre) @ k @ g1 @ ''='' @ g2 @ v @ CHR 0x0A # post \<and>
        k \<noteq> [] \<and> list_all is_word k \<and> g1 \<noteq> [] \<and> list_all is_space g1 \<and>
        g2 \<noteq> [] \<and> list_all is_space g2 \<and> v \<noteq> [] \<and> list_all not_newline v"
      by simp
    then show ?thesis by blast
  next
    case (Some m)
    obtain k0 v0 after where m: "m = ((k0, v0), after)" by (cases m) auto
    with Some "2.prems" have "(k, v) = (k0, v0) \<or> (k, v) \<in> set (findall after)" by simp
    then show ?thesis
    proof
      assume "(k, v) = (k0, v0)"
      with Some m have "match_at (c # cs) = Some ((k, v), after)" by simp
      from match_at_Some [OF this] obtain g1 g2 where
        "c # cs = [] @ k @ g1 @ ''='' @ g2 @ v @ CHR 0x0A # after \<and>
           k \<noteq> [] \<and> list_all is_word k \<and> g1 \<noteq> [] \<and> list_all is_space g1 \<and>
           g2 \<noteq> [] \<and> list_all is_space g2 \<and> v \<noteq> [] \<and> list_all not_newline v"
        by auto
      then show ?thesis by blast
    next
      assume "(k, v) \<in> set (findall after)"
      from "2.IH"(2) [OF Some m [symmetric] this] obtain pre g1 g2 post where
        after: "after = pre @ k @ g1 @ ''='' @ g2 @ v @ CHR 0x0A # post" and
        rest: "k \<noteq> [] \<and> list_all is_word k \<and> g1 \<noteq> [] \<and> list_all is_space g1 \<and>
          g2 \<noteq> [] \<and> list_all is_space g2 \<and> v \<noteq> [] \<and> list_all not_newline v"
        by blast
      from match_at_Some [OF Some [unfolded m]] obtain h1 h2 where
        "c # cs = k0 @ h1 @ ''='' @ h2 @ v0 @ CHR 0x0A # after" by blast
      with after have
        "c # cs = (k0 @ h1 @ ''='' @ h2 @ v0 @ CHR 0x0A # pre) @ k @ g1 @ ''='' @ g2 @ v
            @ CHR 0x0A # post"
        by simp
      with rest show ?thesis by blast
    qed
  qed
qed

lemma match_at_no_eq: "CHR ''='' \<notin> set t \<Longrightarrow> match_at t = None"
proof (rule ccontr)
  assume no: "CHR ''='' \<notin> set t" and "match_at t \<noteq> None"
  then obtain k v rest where "match_at t = Some ((k, v), rest)" by auto
  from match_at_Some [OF this] no show False by auto
qed

lemma findall_no_eq: "CHR ''='' \<notin> set t \<Longrightarrow> findall t = []"
  by (induction t rule: findall.induct) (simp_all add: match_at_no_eq)

lemma dropWhile_none: "xs = [] \<or> \<not> P (hd xs) \<Longrightarrow> dropWhile P xs = xs"
  by (cases xs) auto

lemma strip_idem: "strip (strip s) = strip s"
proof -
  let ?a = "dropWhile is_space s"
  let ?b = "dropWhile is_space (rev ?a)"
  have b: "?b = [] \<or> \<not> is_space (hd ?b)"
    by (metis hd_dropWhile)
  have a: "?a = [] \<or> \<not> is_space (hd ?a)"
    by (metis hd_dropWhile)
  have "rev ?b = [] \<or> \<not> is_space (hd (rev ?b))"
  proof (cases "?b = []")
    case True
    then show ?thesis by simp
  next
    case False
    then obtain ys where ys: "rev ?a = ys @ ?b" 
      by (metis takeWhile_dropWhile_id)
    then have "?a = rev ?b @ rev ys" by (metis rev_append rev_rev_ident)
    with False have hd: "hd ?a = hd (rev ?b)" by (metis hd_append2 rev_is_Nil_conv)
    from ys False have "?a \<noteq> []" by (metis append_is_Nil_conv rev_is_Nil_conv)
    with a have "\<not> is_space (hd ?a)" by blast
    with hd show ?thesis by simp
  qed
  then have "dropWhile is_space (rev ?b) = rev ?b" by (rule dropWhile_none)
  moreover have "dropWhile is_space ?b = ?b" using b by (rule dropWhile_none)
  ultimately show ?thesis by (simp add: strip_def)
qed

lemma strip_word: "list_all is_word k \<Longrightarrow> strip k = k"
proof -
  assume "list_all is_word k"
  then have no: "\<forall>c \<in> set k. \<not> is_space c"
    by (auto simp: list_all_iff dest: space_not_word)
  then have "dropWhile is_space k = k" by (cases k) auto
  moreover from no have "dropWhile is_space (rev k) = rev k" by (cases "rev k") auto
  ultimately show ?thesis by (simp add: strip_def)
qed

lemma srcinfo_step_strip:
  "srcinfo_step flds st (strip (fst f), strip (snd f)) = srcinfo_step flds st f"
  by (simp add: srcinfo_step_def strip_idem)

lemma srcinfo_blocks_tokens: "srcinfo_blocks flds (tokens doc) = srcinfo_blocks flds (findall doc)"
proof -
  have "foldl (srcinfo_step flds) st (map (\<lambda>f. (strip (fst f), strip (snd f))) ms) =
        foldl (srcinfo_step flds) st ms" for st ms
    by (induction ms arbitrary: st) (simp_all add: srcinfo_step_strip)
  then show ?thesis by (simp add: srcinfo_blocks_def tokens_def)
qed

lemma no_free_eq_mid: "no_free_eq ok (xs @ s # CHR ''='' # ys) \<Longrightarrow> \<not> is_space s"
  by (induction xs arbitrary: ok) auto

lemma safe_eq: "list_all is_space us \<Longrightarrow> \<not> safe (us @ CHR ''='' # R)"
  by (simp add: safe_def dropWhile_run eq_not_space)

lemma match_at_skippable:
  assumes j: "no_free_eq ok j" "j \<noteq> []" "\<not> is_word (last j)" and t: "safe t"
  shows "match_at (j @ t) = None"
proof (rule ccontr)
  assume "match_at (j @ t) \<noteq> None"
  then obtain k v rest where "match_at (j @ t) = Some ((k, v), rest)" by auto
  from match_at_Some [OF this] obtain g1 g2 where
    eq: "j @ t = k @ g1 @ ''='' @ g2 @ v @ CHR 0x0A # rest" and
    k: "k \<noteq> []" "list_all is_word k" and g1: "g1 \<noteq> []" "list_all is_space g1"
    by blast
  define R where "R = g2 @ v @ CHR 0x0A # rest"
  from eq have "j @ t = (k @ g1) @ CHR ''='' # R" by (simp add: R_def)
  then consider
    (long) us where "j = (k @ g1) @ us" "us @ t = CHR ''='' # R"
    | (short) us where "j @ us = k @ g1" "t = us @ CHR ''='' # R"
    by (auto simp only: append_eq_append_conv2)
  then show False
  proof cases
    case long
    show False
    proof (cases us)
      case Nil
      with long(2) have "t = [] @ CHR ''='' # R" by simp
      with safe_eq [of "[]" R] t show False by simp
    next
      case (Cons u us')
      with long(2) have "u = CHR ''=''" by simp
      with long(1) Cons g1(1) have "j = (k @ butlast g1) @ last g1 # CHR ''='' # us'"
        by simp
      with j(1) have "\<not> is_space (last g1)" using no_free_eq_mid by metis
      moreover from g1 have "is_space (last g1)" by (simp add: list_all_iff)
      ultimately show False by simp
    qed
  next
    case short
    from short(1) consider
      (past) vs where "j = k @ vs" "vs @ us = g1"
      | (inside) vs where "j @ vs = k" "us = vs @ g1"
      by (auto simp only: append_eq_append_conv2)
    then show False
    proof cases
      case past
      with g1(2) have "list_all is_space us" by auto
      with short(2) safe_eq t show False by simp
    next
      case inside
      with k(2) have "list_all is_word j" by auto
      with j(2) have "is_word (last j)" by (simp add: list_all_iff)
      with j(3) show False by simp
    qed
  qed
qed

lemma findall_skip:
  "no_free_eq ok j \<Longrightarrow> j = [] \<or> \<not> is_word (last j) \<Longrightarrow> safe t \<Longrightarrow>
     findall (j @ t) = findall t"
proof (induction j arbitrary: ok)
  case Nil
  then show ?case by simp
next
  case (Cons c j)
  from Cons.prems have "match_at ((c # j) @ t) = None"
    by (intro match_at_skippable [of ok]) simp_all
  then have "findall ((c # j) @ t) = findall (j @ t)" by simp
  moreover from Cons.prems have "no_free_eq (\<not> is_space c) j" by simp
  moreover from Cons.prems(2) have "j = [] \<or> \<not> is_word (last j)" by (cases j) auto
  ultimately show ?case using Cons.IH Cons.prems(3) by metis
qed

lemma safe_Nil: "safe []"
  by (simp add: safe_def)

lemma safe_render: "well_formed l \<Longrightarrow> safe (render l @ rest)"
proof -
  assume "well_formed l"
  then obtain c cs where k: "line_key l = c # cs" "is_word c"
    by (cases "line_key l") (auto simp: well_formed_def)
  then have "\<not> is_space c" "c \<noteq> CHR ''=''"
    using space_not_word eq_not_space(2) by auto
  with k show ?thesis by (simp add: safe_def render_def)
qed

lemma safe_skipped: "no_free_eq False j \<Longrightarrow> safe t \<Longrightarrow> safe (j @ t)"
  by (induction j) (auto simp: safe_def)

lemma safe_segments:
  "list_all segment_ok segs \<Longrightarrow> safe (concat (map segment_text segs))"
proof (induction segs)
  case Nil
  then show ?case by (simp add: safe_Nil)
next
  case (Cons sg segs)
  then show ?case
    by (cases sg) (simp_all add: safe_render safe_skipped skippable_def)
qed

lemma findall_segments:
  "list_all segment_ok segs \<Longrightarrow>
     findall (concat (map segment_text segs)) =
       concat (map (\<lambda>sg. case sg of Line l \<Rightarrow> [(line_key l, line_text l)] | Skipped j \<Rightarrow> []) segs)"
proof (induction segs)
  case Nil
  then show ?case by simp
next
  case (Cons sg segs)
  then have rest: "safe (concat (map segment_text segs))" by (simp add: safe_segments)
  show ?case
  proof (cases sg)
    case (Line l)
    with Cons show ?thesis by (simp add: findall_render)
  next
    case (Skipped j)
    with Cons.prems have "skippable j" by simp
    then have "findall (j @ concat (map segment_text segs)) =
        findall (concat (map segment_text segs))"
      using rest by (auto simp: skippable_def intro: findall_skip)
    with Cons Skipped show ?thesis by simp
  qed
qed

lemma tokens_segments:
  assumes "list_all segment_ok segs"
  shows "tokens (concat (map segment_text segs)) = concat (map segment_pairs segs)"
proof -
  have "map (\<lambda>f. (strip (fst f), strip (snd f)))
          (concat (map (\<lambda>sg. case sg of Line l \<Rightarrow> [(line_key l, line_text l)]
                                | Skipped j \<Rightarrow> []) segs)) =
        concat (map segment_pairs segs)"
    using assms
  proof (induction segs)
    case Nil
    then show ?case by simp
  next
    case (Cons sg segs)
    then show ?case
      by (cases sg) (simp_all add: well_formed_def strip_word)
  qed
  with assms show ?thesis by (simp add: tokens_def findall_segments)
qed


lemma tokens_sound:
  assumes "(k, w) \<in> set (tokens doc)"
  shows "\<exists>v pre g1 g2 post. w = strip v \<and>
           doc = pre @ k @ g1 @ ''='' @ g2 @ v @ CHR 0x0A # post \<and>
           k \<noteq> [] \<and> list_all is_word k \<and> g1 \<noteq> [] \<and> list_all is_space g1 \<and>
           g2 \<noteq> [] \<and> list_all is_space g2 \<and> v \<noteq> [] \<and> list_all not_newline v"
proof -
  from assms obtain k0 v where
    kv: "(k0, v) \<in> set (findall doc)" "k = strip k0" "w = strip v"
    by (auto simp: tokens_def)
  from findall_sound [OF kv(1)] obtain pre g1 g2 post where
    d: "doc = pre @ k0 @ g1 @ ''='' @ g2 @ v @ CHR 0x0A # post" and
    c: "k0 \<noteq> [] \<and> list_all is_word k0 \<and> g1 \<noteq> [] \<and> list_all is_space g1 \<and>
        g2 \<noteq> [] \<and> list_all is_space g2 \<and> v \<noteq> [] \<and> list_all not_newline v"
    by blast
  from c kv(2) have "k = k0" by (simp add: strip_word)
  with d c kv(3) show ?thesis by blast
qed

text \<open>
  Claim C9, as amended. The tokenizer emits one pair for each match of the pattern, from
  left to right: an identifier, one or more white-space characters, \<^verbatim>\<open>=\<close>, one or more
  white-space characters, a non-empty text with no newline, and the newline; the loop
  of \<^verbatim>\<open>map_srcinfo\<close> reads the pairs with key and value stripped. Take a document made of
  lines of this form, whose texts do not start with white space, and, before, between
  and after them, of stretches of other text in which no \<^verbatim>\<open>=\<close> stands first or directly
  after a white-space character and which do not end in an identifier character: it
  gives the pair of each line, in order, with the value stripped, and nothing for the
  stretches. In every document, each pair emitted stands in the document in the form of
  the pattern, and a document with no \<^verbatim>\<open>=\<close> gives no pair. The tokenizer is a total
  function: what matches nowhere is skipped, and nothing is raised.
\<close>

theorem tokens_of_segments:
  "(list_all segment_ok segs \<longrightarrow>
      tokens (concat (map segment_text segs)) = concat (map segment_pairs segs))
   \<and> ((k, w) \<in> set (tokens doc) \<longrightarrow>
        (\<exists>v pre g1 g2 post. w = strip v \<and>
           doc = pre @ k @ g1 @ ''='' @ g2 @ v @ CHR 0x0A # post \<and>
           k \<noteq> [] \<and> list_all is_word k \<and> g1 \<noteq> [] \<and> list_all is_space g1 \<and>
           g2 \<noteq> [] \<and> list_all is_space g2 \<and> v \<noteq> [] \<and> list_all not_newline v))
   \<and> (CHR ''='' \<notin> set doc \<longrightarrow> tokens doc = [])
   \<and> map_srcinfo enum doc p flds = merge_blocks enum (srcinfo_blocks flds (tokens doc)) p flds"
proof (intro conjI impI)
  assume "list_all segment_ok segs"
  then show "tokens (concat (map segment_text segs)) = concat (map segment_pairs segs)"
    by (rule tokens_segments)
next
  assume "(k, w) \<in> set (tokens doc)"
  then show "\<exists>v pre g1 g2 post. w = strip v \<and>
           doc = pre @ k @ g1 @ ''='' @ g2 @ v @ CHR 0x0A # post \<and>
           k \<noteq> [] \<and> list_all is_word k \<and> g1 \<noteq> [] \<and> list_all is_space g1 \<and>
           g2 \<noteq> [] \<and> list_all is_space g2 \<and> v \<noteq> [] \<and> list_all not_newline v"
    by (rule tokens_sound)
next
  assume "CHR ''='' \<notin> set doc"
  then show "tokens doc = []" by (simp add: tokens_def findall_no_eq)
next
  show "map_srcinfo enum doc p flds = merge_blocks enum (srcinfo_blocks flds (tokens doc)) p flds"
    by (simp add: map_srcinfo_def srcinfo_blocks_tokens)
qed

theorem tokens_of_segments_witness:
  "tokens (concat (map segment_text
      [Skipped ''# generated\<newline>'',
       Line \<lparr>line_key = ''pkgname'', gap_before = '' '', gap_after = '' '',
             line_text = ''foo ''\<rparr>,
       Skipped ''\<newline>'',
       Skipped [CHR 0x09],
       Line \<lparr>line_key = ''arch'', gap_before = ''  '', gap_after = [CHR 0x09],
             line_text = ''any''\<rparr>,
       Skipped ''opt=1\<newline>foo-'',
       Line \<lparr>line_key = ''p'' @ [CHR 0xE4] @ ''ckage'', gap_before = [CHR 0xA0],
             gap_after = '' '', line_text = ''x''\<rparr>])) =
     [(''pkgname'', ''foo''), (''arch'', ''any''), (''p'' @ [CHR 0xE4] @ ''ckage'', ''x'')]
   \<and> tokens ''no pairs here\<newline>'' = []"
proof -
  let ?segs = "[Skipped ''# generated\<newline>'',
       Line \<lparr>line_key = ''pkgname'', gap_before = '' '', gap_after = '' '',
             line_text = ''foo ''\<rparr>,
       Skipped ''\<newline>'',
       Skipped [CHR 0x09],
       Line \<lparr>line_key = ''arch'', gap_before = ''  '', gap_after = [CHR 0x09],
             line_text = ''any''\<rparr>,
       Skipped ''opt=1\<newline>foo-'',
       Line \<lparr>line_key = ''p'' @ [CHR 0xE4] @ ''ckage'', gap_before = [CHR 0xA0],
             gap_after = '' '', line_text = ''x''\<rparr>]"
  have ok: "list_all segment_ok ?segs"
    by (simp add: well_formed_def skippable_def is_word_def in_range_def is_space_def
        not_newline_def)
  have no: "CHR ''='' \<notin> set ''no pairs here\<newline>''" by simp
  have vals: "concat (map segment_pairs ?segs) =
      [(''pkgname'', ''foo''), (''arch'', ''any''), (''p'' @ [CHR 0xE4] @ ''ckage'', ''x'')]"
    by (simp add: strip_def is_space_def)
  note T = tokens_of_segments [of ?segs "[]" "[]" "''no pairs here\<newline>''" sorted_list_of_set
      None None]
  from T [THEN conjunct1] ok
  have "tokens (concat (map segment_text ?segs)) = concat (map segment_pairs ?segs)"
    by (rule mp)
  then have one: "tokens (concat (map segment_text ?segs)) =
      [(''pkgname'', ''foo''), (''arch'', ''any''), (''p'' @ [CHR 0xE4] @ ''ckage'', ''x'')]"
    by (simp only: vals)
  from T [THEN conjunct2, THEN conjunct2, THEN conjunct1] no
  have "tokens ''no pairs here\<newline>'' = []" by (rule mp)
  with one show ?thesis by (rule conjI)
qed

text \<open>
  Claim C9 as stated fails for a line with two blanks on each side of the \<^verbatim>\<open>=\<close>, which
  gives a pair all the same, for a line that is not of the form but ends in a match,
  and for a line with nothing after the \<^verbatim>\<open>=\<close>, which is not skipped: the newline is white
  space, and the next line becomes its value.
\<close>

theorem tokens_two_blanks_counterexample:
  "tokens ''a  =  b\<newline>'' = [(''a'', ''b'')]
   \<and> tokens ''foo-bar = x\<newline>'' = [(''bar'', ''x'')]
   \<and> tokens ''a =\<newline>b = c\<newline>'' = [(''a'', ''b = c'')]"
  by (simp add: tokens_def match_at_def is_word_def in_range_def is_space_def not_newline_def strip_def
      Let_def)


section \<open>The form of the fields of a record\<close>

lemma kept_scopes_None: "kept_scopes None cs ps = spec_segment cs ps"
  by (induction ps arbitrary: cs) (simp_all add: fields_allow_def)





















end
